theory Spec2Isabelle
  imports Main "HOL-Library.Sublist"
begin

section \<open>Data model of \<^verbatim>\<open>src/wiring.js\<close>\<close>

text \<open>
  Adjusters are JavaScript functions; the code only ever compares them by reference
  (as \<^verbatim>\<open>Map\<close> and \<^verbatim>\<open>Set\<close> keys), so an adjuster is modelled by its identity, a
  natural number. Container adjusters and wiring adjusters live in the same identity space,
  as they do in the code: an adjuster is a wiring adjuster exactly when it is a key of
  \<^verbatim>\<open>_wiringSuppliedByWiringAdjusters\<close>.

  A plain object used as a dictionary (\<^verbatim>\<open>_containerAdjusters\<close>, \<^verbatim>\<open>_wiringAdjusters\<close>) is an
  association list in insertion order, which is the order of \<^verbatim>\<open>Object.entries\<close>; a
  \<^verbatim>\<open>Map\<close> is an association list in insertion order as well. Keys are assumed to be
  ordinary property names: not array-index strings such as \<^verbatim>\<open>"7"\<close> (which JavaScript
  enumerates first) and not names inherited from \<^verbatim>\<open>Object.prototype\<close> such as
  \<^verbatim>\<open>"toString"\<close> (which a lookup on \<^verbatim>\<open>{}\<close> finds without an own property).

  The first field of a wiring is its concrete class (\<^verbatim>\<open>this.constructor\<close>); \<open>0\<close> is
  \<^verbatim>\<open>Wiring\<close> itself.
\<close>

type_synonym adjuster = nat
type_synonym arg = nat
type_synonym collection = "(string \<times> adjuster list) list"

datatype wiring = Wiring
  (wclass: nat)
  (containerAdjusters: "(string \<times> adjuster list) list")
  (wiringAdjusters: "(string \<times> adjuster list) list")
  (wiringSuppliedByWiringAdjusters: "(adjuster \<times> wiring option) list")

datatype error = TypeError | RangeError | AdjusterError

text \<open>
  What the external functions do. A wiring adjuster is represented by the sequence of things
  it does with its \<^verbatim>\<open>addWiring\<close> callback, given its context argument: it passes a wiring,
  passes something that is not a wiring, or throws. A container adjuster registers beans in
  the external container; the model records that it was called and lets it throw.
\<close>

datatype wa_context = NoContext | Created string "(adjuster \<times> arg list) list"

datatype wa_call = AddWiring wiring | AddInvalid | Throw

record env =
  wiringAdjusterCalls :: "adjuster \<Rightarrow> wa_context \<Rightarrow> wa_call list"
  containerAdjusterThrows :: "adjuster \<Rightarrow> string \<Rightarrow> (adjuster \<times> arg list) list \<Rightarrow> arg list \<Rightarrow> bool"

datatype call =
    WiringAdjusterCall adjuster wa_context
  | RegisterWiringBean
  | ContainerAdjusterCall adjuster "arg list"

record container =
  ctype :: string
  wiringBean :: wiring
  applied :: "(adjuster \<times> arg list) list"

record containerFactory =
  fwiring :: wiring
  ftype :: string
  factoryArgs :: "arg list"

section \<open>The adjuster registry\<close>

definition isValidContainerType :: "string \<Rightarrow> bool" where
  "isValidContainerType containerType \<longleftrightarrow>
     containerType \<noteq> [] \<and> hd containerType \<noteq> CHR ''.'' \<and> last containerType \<noteq> CHR ''.''"

text \<open>\<^verbatim>\<open>String.prototype.split('.')\<close> and \<^verbatim>\<open>Array.prototype.join('.')\<close>.\<close>

fun split_dot :: "string \<Rightarrow> string list" where
  "split_dot [] = [[]]"
| "split_dot (c # cs) =
     (if c = CHR ''.'' then [] # split_dot cs
      else (case split_dot cs of [] \<Rightarrow> [[c]] | x # xs \<Rightarrow> (c # x) # xs))"

fun join_dot :: "string list \<Rightarrow> string" where
  "join_dot [] = []"
| "join_dot [x] = x"
| "join_dot (x # y # ys) = x @ CHR ''.'' # join_dot (y # ys)"

text \<open>The constructor: a new wiring, empty or a copy with every array sliced.\<close>

definition newWiring :: "nat \<Rightarrow> wiring" where
  "newWiring cls = Wiring cls [] [] []"

definition clone :: "wiring \<Rightarrow> wiring" where
  "clone wiring = Wiring (wclass wiring)
     (map (\<lambda>(containerType, adjusters). (containerType, adjusters))
        (containerAdjusters wiring))
     (map (\<lambda>(containerType, adjusters). (containerType, adjusters))
        (wiringAdjusters wiring))
     (wiringSuppliedByWiringAdjusters wiring)"

function getAncestorAdjusters_loop :: "collection \<Rightarrow> string list \<Rightarrow> adjuster list" where
  "getAncestorAdjusters_loop adjusterCollection ancestorComponents =
     (if length ancestorComponents > 1 then
        (case map_of adjusterCollection (join_dot (butlast ancestorComponents)) of
           Some adjusters \<Rightarrow> adjusters
         | None \<Rightarrow> getAncestorAdjusters_loop adjusterCollection (butlast ancestorComponents))
      else [])"
  by pat_completeness auto
termination
  by (relation "measure (\<lambda>(c, xs). length xs)") auto

definition getAncestorAdjusters :: "collection \<Rightarrow> string \<Rightarrow> adjuster list" where
  "getAncestorAdjusters adjusterCollection containerType =
     getAncestorAdjusters_loop adjusterCollection (split_dot containerType)"

definition ensureContainerTypeExists :: "collection \<Rightarrow> string \<Rightarrow> collection" where
  "ensureContainerTypeExists adjusterCollection containerType =
     (if map_of adjusterCollection containerType = None
      then adjusterCollection @
             [(containerType, getAncestorAdjusters adjusterCollection containerType)]
      else adjusterCollection)"

definition pushAdjusters :: "adjuster list \<Rightarrow> adjuster list \<Rightarrow> adjuster list" where
  "pushAdjusters adjusterList adjusters = foldl (\<lambda>l adjuster. l @ [adjuster]) adjusterList adjusters"

text \<open>\<^verbatim>\<open>this._pushAdjusters(adjusterCollection[containerType], adjusters)\<close>: the array stored
  under the key is extended in place.\<close>

definition pushAdjustersAt :: "collection \<Rightarrow> string \<Rightarrow> adjuster list \<Rightarrow> collection" where
  "pushAdjustersAt adjusterCollection containerType adjusters =
     map (\<lambda>(t, adjusterList).
            if t = containerType then (t, pushAdjusters adjusterList adjusters)
            else (t, adjusterList)) adjusterCollection"

definition pushAdjustersIntoDescendants ::
  "collection \<Rightarrow> string \<Rightarrow> adjuster list \<Rightarrow> collection" where
  "pushAdjustersIntoDescendants adjusterCollection containerType adjusters =
     map (\<lambda>(maybeDescendentType, adjusterList).
            if prefix (containerType @ ''.'') maybeDescendentType
            then (maybeDescendentType, pushAdjusters adjusterList adjusters)
            else (maybeDescendentType, adjusterList)) adjusterCollection"

definition pushAdjustersIntoUnknownDescendants ::
  "collection \<Rightarrow> string \<Rightarrow> adjuster list \<Rightarrow> collection \<Rightarrow> collection" where
  "pushAdjustersIntoUnknownDescendants adjusterCollection containerType adjusters
       referenceCollection =
     map (\<lambda>(maybeDescendentType, adjusterList).
            if prefix (containerType @ ''.'') maybeDescendentType
               \<and> map_of referenceCollection maybeDescendentType = None
            then (maybeDescendentType, pushAdjusters adjusterList adjusters)
            else (maybeDescendentType, adjusterList)) adjusterCollection"

definition addAdjuster :: "collection \<Rightarrow> string \<Rightarrow> adjuster \<Rightarrow> collection" where
  "addAdjuster adjusterCollection containerType adjuster =
     pushAdjustersIntoDescendants
       (pushAdjustersAt (ensureContainerTypeExists adjusterCollection containerType)
          containerType [adjuster])
       containerType [adjuster]"

definition addAdjusters_step :: "collection \<Rightarrow> collection \<Rightarrow> string \<times> adjuster list \<Rightarrow> collection" where
  "addAdjusters_step sourceCollection adjusterCollection entry =
     (case entry of (containerType, adjusters) \<Rightarrow>
        pushAdjustersIntoUnknownDescendants
          (pushAdjustersAt (ensureContainerTypeExists adjusterCollection containerType)
             containerType adjusters)
          containerType adjusters sourceCollection)"

definition addAdjusters :: "collection \<Rightarrow> collection \<Rightarrow> collection" where
  "addAdjusters adjusterCollection sourceCollection =
     foldl (addAdjusters_step sourceCollection) adjusterCollection sourceCollection"

text \<open>\<^verbatim>\<open>Map.prototype.set\<close>: an existing key keeps its position.\<close>

definition map_set :: "(adjuster \<times> wiring option) list \<Rightarrow> adjuster \<Rightarrow> wiring option
    \<Rightarrow> (adjuster \<times> wiring option) list" where
  "map_set m k v =
     (if map_of m k = None then m @ [(k, v)]
      else map (\<lambda>(k', v'). if k' = k then (k', v) else (k', v')) m)"

definition addSuppliedWiring_map ::
  "(adjuster \<times> wiring option) list \<Rightarrow> (adjuster \<times> wiring option) list
    \<Rightarrow> (adjuster \<times> wiring option) list" where
  "addSuppliedWiring_map m source =
     foldl (\<lambda>m (wiringAdjuster, suppliedWiring).
              if map_of m wiringAdjuster = None then map_set m wiringAdjuster suppliedWiring
              else m) m source"

definition addSuppliedWiring :: "wiring \<Rightarrow> wiring \<Rightarrow> wiring" where
  "addSuppliedWiring this wiring =
     Wiring (wclass this) (containerAdjusters this) (wiringAdjusters this)
       (addSuppliedWiring_map (wiringSuppliedByWiringAdjusters this)
          (wiringSuppliedByWiringAdjusters wiring))"

definition ensureSuppliedWiringKeyExists :: "wiring \<Rightarrow> adjuster \<Rightarrow> wiring" where
  "ensureSuppliedWiringKeyExists this wiringAdjuster =
     (if map_of (wiringSuppliedByWiringAdjusters this) wiringAdjuster = None
      then Wiring (wclass this) (containerAdjusters this) (wiringAdjusters this)
             (map_set (wiringSuppliedByWiringAdjusters this) wiringAdjuster None)
      else this)"

definition priv_adjustContainer :: "wiring \<Rightarrow> string \<Rightarrow> adjuster \<Rightarrow> wiring" where
  "priv_adjustContainer this containerType containerAdjuster =
     Wiring (wclass this)
       (addAdjuster (containerAdjusters this) (''.'' @ containerType) containerAdjuster)
       (ensureContainerTypeExists (wiringAdjusters this) containerType)
       (wiringSuppliedByWiringAdjusters this)"

definition priv_adjustWiringAfter :: "wiring \<Rightarrow> string \<Rightarrow> adjuster \<Rightarrow> wiring" where
  "priv_adjustWiringAfter this containerType wiringAdjuster =
     ensureSuppliedWiringKeyExists
       (Wiring (wclass this)
          (addAdjuster
             (if containerType \<noteq> ''''
              then ensureContainerTypeExists (containerAdjusters this) (''.'' @ containerType)
              else containerAdjusters this)
             '''' wiringAdjuster)
          (addAdjuster (wiringAdjusters this) containerType wiringAdjuster)
          (wiringSuppliedByWiringAdjusters this))
       wiringAdjuster"

definition priv_adjustBaseWiring :: "wiring \<Rightarrow> adjuster \<Rightarrow> wiring" where
  "priv_adjustBaseWiring this wiringAdjuster = priv_adjustWiringAfter this '''' wiringAdjuster"

definition priv_addWiring :: "wiring \<Rightarrow> wiring \<Rightarrow> wiring" where
  "priv_addWiring this wiring =
     addSuppliedWiring
       (Wiring (wclass this)
          (addAdjusters (containerAdjusters this) (containerAdjusters wiring))
          (addAdjusters (wiringAdjusters this) (wiringAdjusters wiring))
          (wiringSuppliedByWiringAdjusters this))
       wiring"

section \<open>The builder\<close>

text \<open>
  A \<^verbatim>\<open>WiringBuilder\<close> holds one private wiring, so a builder is modelled by that wiring.
  The adjuster and wiring arguments are typed, so of the builder's argument checks only
  the container-type check remains; a rejected call leaves the builder as it was.
\<close>

definition WiringBuilder_new :: "wiring option \<Rightarrow> wiring" where
  "WiringBuilder_new wiring = (case wiring of None \<Rightarrow> newWiring 0 | Some w \<Rightarrow> clone w)"

definition adjustBaseWiring :: "wiring \<Rightarrow> adjuster \<Rightarrow> error + wiring" where
  "adjustBaseWiring builder wiringAdjuster = Inr (priv_adjustBaseWiring builder wiringAdjuster)"

definition adjustContainer :: "wiring \<Rightarrow> string \<Rightarrow> adjuster \<Rightarrow> error + wiring" where
  "adjustContainer builder containerType containerAdjuster =
     (if \<not> isValidContainerType containerType then Inl TypeError
      else Inr (priv_adjustContainer builder containerType containerAdjuster))"

definition adjustWiringAfter :: "wiring \<Rightarrow> string \<Rightarrow> adjuster \<Rightarrow> error + wiring" where
  "adjustWiringAfter builder containerType wiringAdjuster =
     (if \<not> isValidContainerType containerType then Inl TypeError
      else Inr (priv_adjustWiringAfter builder containerType wiringAdjuster))"

definition addWiring :: "wiring \<Rightarrow> wiring \<Rightarrow> error + wiring" where
  "addWiring builder wiring = Inr (priv_addWiring builder wiring)"

definition build :: "wiring \<Rightarrow> wiring" where
  "build builder = clone builder"

section \<open>The wiring-adjuster expansion engine\<close>

text \<open>
  The \<^verbatim>\<open>addWiring\<close> callback handed to a wiring adjuster works on two objects: the wiring
  being expanded (\<^verbatim>\<open>this\<close>) and the supplied wiring that was stored in the map just before
  the adjuster was called. The model threads the pair and writes the supplied wiring back
  under the adjuster's key once the adjuster has returned and the container types have been
  synchronised; in between, the map is only asked whether it has a key.
\<close>

definition addWiringCallback :: "wiring \<times> wiring \<Rightarrow> wiring \<Rightarrow> wiring \<times> wiring" where
  "addWiringCallback state wiringToAdd =
     (case state of (this, suppliedWiring) \<Rightarrow>
        (addSuppliedWiring
           (Wiring (wclass this) (containerAdjusters this)
              (addAdjusters (wiringAdjusters this) (wiringAdjusters wiringToAdd))
              (wiringSuppliedByWiringAdjusters this))
           wiringToAdd,
         Wiring (wclass suppliedWiring)
           (addAdjusters (containerAdjusters suppliedWiring) (containerAdjusters wiringToAdd))
           (wiringAdjusters suppliedWiring)
           (wiringSuppliedByWiringAdjusters suppliedWiring)))"

fun runWiringAdjuster :: "wa_call list \<Rightarrow> wiring \<times> wiring \<Rightarrow> error + wiring \<times> wiring" where
  "runWiringAdjuster [] state = Inr state"
| "runWiringAdjuster (AddWiring wiringToAdd # calls) state =
     runWiringAdjuster calls (addWiringCallback state wiringToAdd)"
| "runWiringAdjuster (AddInvalid # calls) state = Inl TypeError"
| "runWiringAdjuster (Throw # calls) state = Inl AdjusterError"

definition synchronise :: "wiring \<times> wiring \<Rightarrow> wiring \<times> wiring" where
  "synchronise state =
     (case state of (this, suppliedWiring) \<Rightarrow>
        (let thisAdjusters = foldl ensureContainerTypeExists (containerAdjusters this)
                               (map fst (containerAdjusters suppliedWiring));
             suppliedAdjusters = foldl ensureContainerTypeExists
                                   (containerAdjusters suppliedWiring) (map fst thisAdjusters)
         in (Wiring (wclass this) thisAdjusters (wiringAdjusters this)
               (wiringSuppliedByWiringAdjusters this),
             Wiring (wclass suppliedWiring) suppliedAdjusters (wiringAdjusters suppliedWiring)
               (wiringSuppliedByWiringAdjusters suppliedWiring))))"

text \<open>\<^verbatim>\<open>this._wiringAdjusters[containerType].shift()\<close> removes the head of the array in place.\<close>

definition shiftAt :: "collection \<Rightarrow> string \<Rightarrow> collection" where
  "shiftAt adjusterCollection containerType =
     map (\<lambda>(t, adjusterList). if t = containerType then (t, tl adjusterList) else (t, adjusterList))
       adjusterCollection"

definition setSuppliedWiring :: "wiring \<Rightarrow> adjuster \<Rightarrow> wiring \<Rightarrow> wiring" where
  "setSuppliedWiring this wiringAdjuster suppliedWiring =
     Wiring (wclass this) (containerAdjusters this) (wiringAdjusters this)
       (map_set (wiringSuppliedByWiringAdjusters this) wiringAdjuster (Some suppliedWiring))"

text \<open>
  One turn of the consuming loop for a wiring adjuster that has no supplied wiring yet: a
  new, empty wiring is stored under its key, the adjuster runs, the container types are
  synchronised.
\<close>

definition expandWiringAdjuster :: "env \<Rightarrow> adjuster \<Rightarrow> wa_context \<Rightarrow> wiring \<Rightarrow> error + wiring" where
  "expandWiringAdjuster env wiringAdjuster arg this =
     (case runWiringAdjuster (wiringAdjusterCalls env wiringAdjuster arg)
             (setSuppliedWiring this wiringAdjuster (newWiring 0), newWiring 0) of
        Inl e \<Rightarrow> Inl e
      | Inr state \<Rightarrow>
          (case synchronise state of (this', suppliedWiring) \<Rightarrow>
             Inr (setSuppliedWiring this' wiringAdjuster suppliedWiring)))"

definition shiftWiringAdjuster :: "wiring \<Rightarrow> string \<Rightarrow> wiring" where
  "shiftWiringAdjuster this containerType =
     Wiring (wclass this) (containerAdjusters this)
       (shiftAt (wiringAdjusters this) containerType)
       (wiringSuppliedByWiringAdjusters this)"

definition alreadySupplied :: "wiring \<Rightarrow> adjuster \<Rightarrow> bool" where
  "alreadySupplied this wiringAdjuster =
     (case map_of (wiringSuppliedByWiringAdjusters this) wiringAdjuster of
        Some (Some alreadySuppliedWiring) \<Rightarrow> True
      | _ \<Rightarrow> False)"

text \<open>
  The consuming loop. It may run forever (every adjuster may supply wiring with a new
  wiring adjuster), so it takes fuel, one unit for each turn of the loop; \<open>None\<close> is
  "still running". The second component of the result lists the wiring adjusters called.
\<close>

fun gather_loop ::
  "nat \<Rightarrow> env \<Rightarrow> string \<Rightarrow> wa_context \<Rightarrow> wiring \<Rightarrow> (error + wiring \<times> call list) option" where
  "gather_loop 0 env containerType arg this = None"
| "gather_loop (Suc fuel) env containerType arg this =
     (case map_of (wiringAdjusters this) containerType of
        None \<Rightarrow> Some (Inr (this, []))
      | Some [] \<Rightarrow> Some (Inr (this, []))
      | Some (wiringAdjuster # rest) \<Rightarrow>
          if alreadySupplied this wiringAdjuster
          then gather_loop fuel env containerType arg (shiftWiringAdjuster this containerType)
          else
            (case expandWiringAdjuster env wiringAdjuster arg
                    (shiftWiringAdjuster this containerType) of
               Inl e \<Rightarrow> Some (Inl e)
             | Inr this' \<Rightarrow>
                 (case gather_loop fuel env containerType arg this' of
                    None \<Rightarrow> None
                  | Some (Inl e) \<Rightarrow> Some (Inl e)
                  | Some (Inr (final, calls)) \<Rightarrow>
                      Some (Inr (final, WiringAdjusterCall wiringAdjuster arg # calls)))))"

definition gatherWiringSuppliedByWiringAdjusters ::
  "nat \<Rightarrow> env \<Rightarrow> wiring \<Rightarrow> string \<Rightarrow> wa_context \<Rightarrow> (error + wiring \<times> call list) option" where
  "gatherWiringSuppliedByWiringAdjusters fuel env this containerType arg =
     (if map_of (wiringAdjusters this) containerType = None then Some (Inr (this, []))
      else gather_loop fuel env containerType arg this)"

text \<open>
  Flattening. The recursion goes through the map of \<^verbatim>\<open>this\<close>, not through the supplied
  wiring, so it need not end: a supplied wiring that lists its own wiring adjuster sends
  the code into unbounded recursion. The fuel bounds the depth; \<open>None\<close> is "no result".
\<close>

fun flatten_list ::
  "nat \<Rightarrow> (adjuster \<times> wiring option) list \<Rightarrow> string \<Rightarrow> adjuster list \<Rightarrow> adjuster list option" where
  "flatten_list 0 supplied containerType adjusters = None"
| "flatten_list (Suc fuel) supplied containerType [] = Some []"
| "flatten_list (Suc fuel) supplied containerType (adjuster # adjusters) =
     (case map_of supplied adjuster of
        None \<Rightarrow> map_option ((#) adjuster) (flatten_list (Suc fuel) supplied containerType adjusters)
      | Some None \<Rightarrow> flatten_list (Suc fuel) supplied containerType adjusters
      | Some (Some suppliedWiring) \<Rightarrow>
          (case map_of (containerAdjusters suppliedWiring) containerType of
             None \<Rightarrow> flatten_list (Suc fuel) supplied containerType adjusters
           | Some suppliedAdjusters \<Rightarrow>
               (case flatten_list fuel supplied containerType suppliedAdjusters of
                  None \<Rightarrow> None
                | Some suppliedContainerAdjusters \<Rightarrow>
                    map_option (pushAdjusters suppliedContainerAdjusters)
                      (flatten_list (Suc fuel) supplied containerType adjusters))))"

definition getFlattenedContainerAdjusters ::
  "nat \<Rightarrow> wiring \<Rightarrow> collection \<Rightarrow> string \<Rightarrow> (error + adjuster list) option" where
  "getFlattenedContainerAdjusters fuel this adjusterCollection containerType =
     (case map_of adjusterCollection containerType of
        None \<Rightarrow> Some (Inl TypeError)
      | Some adjusters \<Rightarrow>
          map_option Inr
            (flatten_list fuel (wiringSuppliedByWiringAdjusters this) containerType adjusters))"

section \<open>The container materializer\<close>

text \<open>
  The loop over the flattened adjusters. The set \<^verbatim>\<open>appliedContainerAdjusters\<close> holds exactly
  the adjusters of the calls made so far, so the list of calls serves as the set.
\<close>

fun applyContainerAdjusters ::
  "env \<Rightarrow> string \<Rightarrow> arg list \<Rightarrow> adjuster list \<Rightarrow> (adjuster \<times> arg list) list
    \<Rightarrow> error + (adjuster \<times> arg list) list" where
  "applyContainerAdjusters env containerType args [] applied_calls = Inr applied_calls"
| "applyContainerAdjusters env containerType args (containerAdjuster # rest) applied_calls =
     (if containerAdjuster \<in> fst ` set applied_calls
      then applyContainerAdjusters env containerType args rest applied_calls
      else if containerAdjusterThrows env containerAdjuster containerType applied_calls args
      then Inl AdjusterError
      else applyContainerAdjusters env containerType args rest
             (applied_calls @ [(containerAdjuster, args)]))"

definition priv_createContainer ::
  "nat \<Rightarrow> env \<Rightarrow> wiring \<Rightarrow> string \<Rightarrow> arg list \<Rightarrow> (error + container \<times> call list) option" where
  "priv_createContainer fuel env this containerType args =
     (case gatherWiringSuppliedByWiringAdjusters fuel env this '''' NoContext of
        None \<Rightarrow> None
      | Some (Inl e) \<Rightarrow> Some (Inl e)
      | Some (Inr (this1, baseCalls)) \<Rightarrow>
          if map_of (containerAdjusters this1) (''.'' @ containerType) = None
          then Some (Inl RangeError)
          else
            (case getFlattenedContainerAdjusters fuel this1 (containerAdjusters this1)
                    (''.'' @ containerType) of
               None \<Rightarrow> None
             | Some (Inl e) \<Rightarrow> Some (Inl e)
             | Some (Inr flattened) \<Rightarrow>
                 (case applyContainerAdjusters env containerType args flattened [] of
                    Inl e \<Rightarrow> Some (Inl e)
                  | Inr applied_calls \<Rightarrow>
                     (case gatherWiringSuppliedByWiringAdjusters fuel env this1 containerType
                             (Created containerType applied_calls) of
                        None \<Rightarrow> None
                      | Some (Inl e) \<Rightarrow> Some (Inl e)
                      | Some (Inr (this2, afterCalls)) \<Rightarrow>
                          Some (Inr (\<lparr>ctype = containerType, wiringBean = this2, applied = applied_calls\<rparr>,
                                     baseCalls @ RegisterWiringBean
                                       # map (\<lambda>(a, args). ContainerAdjusterCall a args) applied_calls
                                       @ afterCalls))))))"

definition createContainer ::
  "nat \<Rightarrow> env \<Rightarrow> wiring \<Rightarrow> string \<Rightarrow> arg list \<Rightarrow> (error + container \<times> call list) option" where
  "createContainer fuel env this containerType args =
     (if \<not> isValidContainerType containerType then Some (Inl TypeError)
      else priv_createContainer fuel env (clone this) containerType args)"

definition priv_createContainerFactory ::
  "nat \<Rightarrow> env \<Rightarrow> wiring \<Rightarrow> string \<Rightarrow> arg list
    \<Rightarrow> (error + containerFactory \<times> call list) option" where
  "priv_createContainerFactory fuel env this containerType fArgs =
     (case gatherWiringSuppliedByWiringAdjusters fuel env this '''' NoContext of
        None \<Rightarrow> None
      | Some (Inl e) \<Rightarrow> Some (Inl e)
      | Some (Inr (this1, baseCalls)) \<Rightarrow>
          if map_of (containerAdjusters this1) (''.'' @ containerType) = None
          then Some (Inl RangeError)
          else Some (Inr (\<lparr>fwiring = this1, ftype = containerType, factoryArgs = fArgs\<rparr>,
                          baseCalls)))"

definition createContainerFactory ::
  "nat \<Rightarrow> env \<Rightarrow> wiring \<Rightarrow> string \<Rightarrow> arg list
    \<Rightarrow> (error + containerFactory \<times> call list) option" where
  "createContainerFactory fuel env this containerType fArgs =
     (if \<not> isValidContainerType containerType then Some (Inl TypeError)
      else priv_createContainerFactory fuel env (clone this) containerType fArgs)"

text \<open>Calling the function returned by \<^verbatim>\<open>_createContainerFactory\<close>.\<close>

definition callFactory ::
  "nat \<Rightarrow> env \<Rightarrow> containerFactory \<Rightarrow> arg list \<Rightarrow> (error + container \<times> call list) option" where
  "callFactory fuel env factory callerArgs =
     priv_createContainer fuel env (clone (fwiring factory)) (ftype factory)
       (factoryArgs factory @ callerArgs)"

section \<open>Builder programs and the documented order of application\<close>

text \<open>
  A builder program is a sequence of calls on a new \<^verbatim>\<open>WiringBuilder\<close>; \<open>AddBuiltWiring\<close> is
  \<^verbatim>\<open>addWiring\<close> applied to the wiring built by another program. A call that throws ends the
  program.
\<close>

datatype builder_op =
    AdjustContainer string adjuster
  | AdjustBaseWiring adjuster
  | AdjustWiringAfter string adjuster
  | AddBuiltWiring "builder_op list"

fun run_op :: "builder_op \<Rightarrow> wiring \<Rightarrow> error + wiring"
  and run_ops :: "builder_op list \<Rightarrow> wiring \<Rightarrow> error + wiring" where
  "run_op (AdjustContainer containerType containerAdjuster) builder =
     adjustContainer builder containerType containerAdjuster"
| "run_op (AdjustBaseWiring wiringAdjuster) builder = adjustBaseWiring builder wiringAdjuster"
| "run_op (AdjustWiringAfter containerType wiringAdjuster) builder =
     adjustWiringAfter builder containerType wiringAdjuster"
| "run_op (AddBuiltWiring ops) builder =
     (case run_ops ops (WiringBuilder_new None) of
        Inl e \<Rightarrow> Inl e
      | Inr other \<Rightarrow> addWiring builder (build other))"
| "run_ops [] builder = Inr builder"
| "run_ops (op # ops) builder =
     (case run_op op builder of Inl e \<Rightarrow> Inl e | Inr builder' \<Rightarrow> run_ops ops builder')"

text \<open>
  \<open>is_ancestor A D\<close>: the container type \<open>D\<close> is a descendant of \<open>A\<close> in the dot
  hierarchy, which the code tests with \<^verbatim>\<open>D.startsWith(`${A}.`)\<close>.
\<close>

definition is_ancestor :: "string \<Rightarrow> string \<Rightarrow> bool" where
  "is_ancestor A D = prefix (A @ ''.'') D"

text \<open>
  The order the documentation promises (README, "Container creation"; specification, 4.4):
  inline the program from top to bottom, keep the container adjusters registered for the
  type or one of its ancestors, and of an adjuster that appears more than once keep the
  first copy. It is written out for programs without wiring adjusters, whose contribution
  depends on what they supply when they run.
\<close>

fun keep_first :: "'a list \<Rightarrow> 'a list \<Rightarrow> 'a list" where
  "keep_first seen [] = []"
| "keep_first seen (x # xs) =
     (if x \<in> set seen then keep_first seen xs else x # keep_first (x # seen) xs)"

fun spec_inlined_op :: "string \<Rightarrow> builder_op \<Rightarrow> adjuster list"
  and spec_inlined :: "string \<Rightarrow> builder_op list \<Rightarrow> adjuster list" where
  "spec_inlined_op T (AdjustContainer U f) = (if U = T \<or> is_ancestor U T then [f] else [])"
| "spec_inlined_op T (AdjustBaseWiring w) = []"
| "spec_inlined_op T (AdjustWiringAfter U w) = []"
| "spec_inlined_op T (AddBuiltWiring ops) = spec_inlined T ops"
| "spec_inlined T [] = []"
| "spec_inlined T (op # ops) = spec_inlined_op T op @ spec_inlined T ops"

definition spec_apply_order :: "string \<Rightarrow> builder_op list \<Rightarrow> adjuster list" where
  "spec_apply_order T ops = keep_first [] (spec_inlined T ops)"

text \<open>The container adjusters called by a creation, in the order of the calls.\<close>

definition applied_order ::
  "(error + container \<times> call list) option \<Rightarrow> (error + adjuster list) option" where
  "applied_order result =
     map_option (\<lambda>r. case r of Inl e \<Rightarrow> Inl e | Inr (c, calls) \<Rightarrow> Inr (map fst (applied c)))
       result"

text \<open>An environment in which no wiring adjuster adds anything and no adjuster throws.\<close>

definition quiet_env :: env where
  "quiet_env = \<lparr>wiringAdjusterCalls = (\<lambda>a c. []),
                 containerAdjusterThrows = (\<lambda>a t l args. False)\<rparr>"

text \<open>
  A module registers adjuster 1 for \<^verbatim>\<open>A\<close>, adjuster 3 for \<^verbatim>\<open>A.B\<close>, then adjuster 2 for \<^verbatim>\<open>A\<close>;
  the application adds the module's wiring to a new builder.
\<close>

definition module_ops :: "builder_op list" where
  "module_ops = [AdjustContainer ''A'' 1, AdjustContainer ''A.B'' 3, AdjustContainer ''A'' 2]"

definition created_from :: "builder_op list \<Rightarrow> string \<Rightarrow> (error + adjuster list) option" where
  "created_from ops T =
     (case run_ops ops (WiringBuilder_new None) of
        Inl e \<Rightarrow> Some (Inl e)
      | Inr builder \<Rightarrow> applied_order (createContainer 1 quiet_env (build builder) T []))"

section \<open>The invariant of the stored lists\<close>

text \<open>
  The nearest known ancestor of a container type, as the specification words it: walk up
  by stripping trailing dot segments and stop at the first type that is known.
\<close>

definition ancestors_of :: "string \<Rightarrow> string list" where
  "ancestors_of T = map (\<lambda>i. take i T) (filter (\<lambda>i. T ! i = CHR ''.'') (rev [0..<length T]))"

definition nearest_known_ancestor :: "collection \<Rightarrow> string \<Rightarrow> string option" where
  "nearest_known_ancestor c T = find (\<lambda>A. map_of c A \<noteq> None) (ancestors_of T)"

definition stored :: "collection \<Rightarrow> string \<Rightarrow> adjuster list" where
  "stored c T = (case map_of c T of Some l \<Rightarrow> l | None \<Rightarrow> [])"

text \<open>
  A collection is ancestor-inclusive when the list of every known type holds every
  adjuster of the list of each of its known ancestors.
\<close>

definition ancestor_inclusive :: "collection \<Rightarrow> bool" where
  "ancestor_inclusive c =
     (\<forall>(A, la) \<in> set c. \<forall>(D, ld) \<in> set c. is_ancestor A D \<longrightarrow> set la \<subseteq> set ld)"

definition inclusive_map :: "(string \<rightharpoonup> adjuster list) \<Rightarrow> bool" where
  "inclusive_map m =
     (\<forall>A D la ld. m A = Some la \<longrightarrow> m D = Some ld \<longrightarrow> is_ancestor A D \<longrightarrow> set la \<subseteq> set ld)"

text \<open>
  The wirings of the definition phase: the private wiring of a builder after any sequence
  of calls. A builder starts empty, from an empty wiring of a subclass, or from the wiring
  built by another builder; \<^verbatim>\<open>addWiring\<close> takes a wiring built by another builder.
\<close>

inductive definition_phase :: "wiring \<Rightarrow> bool" where
  new_builder: "definition_phase (WiringBuilder_new None)"
| new_subclass: "definition_phase (WiringBuilder_new (Some (newWiring cls)))"
| import_wiring: "definition_phase other \<Longrightarrow> definition_phase (WiringBuilder_new (Some (build other)))"
| after_adjustBaseWiring:
    "definition_phase builder \<Longrightarrow> adjustBaseWiring builder wiringAdjuster = Inr builder'
      \<Longrightarrow> definition_phase builder'"
| after_adjustContainer:
    "definition_phase builder \<Longrightarrow> adjustContainer builder containerType containerAdjuster = Inr builder'
      \<Longrightarrow> definition_phase builder'"
| after_adjustWiringAfter:
    "definition_phase builder \<Longrightarrow> adjustWiringAfter builder containerType wiringAdjuster = Inr builder'
      \<Longrightarrow> definition_phase builder'"
| after_addWiring:
    "definition_phase builder \<Longrightarrow> definition_phase other
      \<Longrightarrow> addWiring builder (build other) = Inr builder' \<Longrightarrow> definition_phase builder'"

section \<open>Wiring adjusters within reach\<close>

text \<open>
  The wiring adjusters in the pending lists of a wiring, and an environment whose wiring
  adjusters only ever supply wirings with pending wiring adjusters from a given set.
\<close>

definition adjusters_of :: "collection \<Rightarrow> adjuster set" where
  "adjusters_of c = (\<Union>(T, l) \<in> set c. set l)"

definition pending_adjusters :: "wiring \<Rightarrow> adjuster set" where
  "pending_adjusters w = adjusters_of (wiringAdjusters w)"

definition supplies_within :: "env \<Rightarrow> adjuster set \<Rightarrow> bool" where
  "supplies_within env S =
     (\<forall>a arg x. AddWiring x \<in> set (wiringAdjusterCalls env a arg) \<longrightarrow> pending_adjusters x \<subseteq> S)"

text \<open>
  A wiring adjuster that supplies a wiring in which it is itself registered: wiring
  adjuster 10 is a base wiring adjuster of the wiring below and, when called, adds that
  same wiring.
\<close>

definition self_wiring :: wiring where
  "self_wiring = Wiring 0 [('''', [10]), (''.T'', [10, 1])] [('''', [10]), (''T'', [])] [(10, None)]"

definition self_env :: env where
  "self_env = \<lparr>wiringAdjusterCalls = (\<lambda>a c. if a = 10 then [AddWiring self_wiring] else []),
                containerAdjusterThrows = (\<lambda>a t l args. False)\<rparr>"

definition self_expanded :: wiring where
  "self_expanded = Wiring 0 [('''', [10]), (''.T'', [10, 1])] [('''', []), (''T'', [])]
     [(10, Some (Wiring 0 [('''', [10]), (''.T'', [10, 10, 1])] [] []))]"

section \<open>A wiring of a subclass\<close>

text \<open>
  The wiring built by \<^verbatim>\<open>new WiringBuilder(new SubclassedWiring())\<close> after one container
  adjuster has been registered for \<^verbatim>\<open>Test\<close>; the subclass is class 7.
\<close>

definition subclassed_wiring :: wiring where
  "subclassed_wiring = Wiring 7 [(''.Test'', [1])] [(''Test'', [])] []"

text \<open>The stored lists of container adjusters of a wiring are complete.\<close>

definition stored_lists_complete :: "wiring \<Rightarrow> bool" where
  "stored_lists_complete w =
     (distinct (map fst (containerAdjusters w)) \<and> ancestor_inclusive (containerAdjusters w))"

text \<open>The wiring built by the module of the example above.\<close>

definition module_wiring :: wiring where
  "module_wiring = Wiring 0 [(''.A'', [1, 2]), (''.A.B'', [1, 3, 2])] [(''A'', []), (''A.B'', [])] []"

text \<open>The wiring built after \<^verbatim>\<open>adjustContainer('A', a1)\<close> on a new builder.\<close>

definition single_wiring :: wiring where
  "single_wiring = Wiring 0 [(''.A'', [1])] [(''A'', [])] []"

text \<open>
  The wiring built after \<^verbatim>\<open>adjustContainer('A.B', a1)\<close> alone; and a wiring whose only
  registration is the base wiring adjuster 10, with an environment in which adjuster 10
  adds a wiring that registers container adjuster 2 for \<^verbatim>\<open>Test\<close>.
\<close>

definition ab_wiring :: wiring where
  "ab_wiring = Wiring 0 [(''.A.B'', [1])] [(''A.B'', [])] []"

definition test_wiring :: wiring where
  "test_wiring = Wiring 0 [(''.Test'', [2])] [(''Test'', [])] []"

definition base_only_wiring :: wiring where
  "base_only_wiring = Wiring 0 [('''', [10])] [('''', [10])] [(10, None)]"

definition supplying_env :: env where
  "supplying_env = \<lparr>wiringAdjusterCalls = (\<lambda>a c. if a = 10 then [AddWiring test_wiring] else []),
                     containerAdjusterThrows = (\<lambda>a t l args. False)\<rparr>"

text \<open>
  The working wiring that the base expansion makes of the wiring with the base wiring
  adjuster 10 alone; and the property that the registration of the wiring bean is the
  first call of a creation.
\<close>

definition base_expanded_wiring :: wiring where
  "base_expanded_wiring =
     Wiring 0 [('''', [10]), (''.Test'', [10])] [('''', []), (''Test'', [])]
       [(10, Some (Wiring 0 [(''.Test'', [2]), ('''', [])] [] []))]"

definition bean_registered_first :: "call list \<Rightarrow> bool" where
  "bean_registered_first calls = (case calls of RegisterWiringBean # rest \<Rightarrow> True | _ \<Rightarrow> False)"

section \<open>Nested wiring adjusters\<close>

text \<open>
  The wiring built after \<^verbatim>\<open>adjustBaseWiring(a11)\<close> alone, and an environment in which the
  base wiring adjuster 10 adds that wiring and wiring adjuster 11 adds the wiring that
  registers container adjuster 2 for \<^verbatim>\<open>Test\<close>.
\<close>

definition inner_wiring :: wiring where
  "inner_wiring = Wiring 0 [('''', [11])] [('''', [11])] [(11, None)]"

definition nested_env :: env where
  "nested_env =
     \<lparr>wiringAdjusterCalls = (\<lambda>a c. if a = 10 then [AddWiring inner_wiring]
                                    else if a = 11 then [AddWiring test_wiring] else []),
      containerAdjusterThrows = (\<lambda>a t l args. False)\<rparr>"

text \<open>The same outer wiring with the type \<^verbatim>\<open>Test\<close> created first, by container adjuster 1.\<close>

definition typed_outer_wiring :: wiring where
  "typed_outer_wiring =
     Wiring 0 [(''.Test'', [1, 10]), ('''', [10])] [(''Test'', []), ('''', [10])] [(10, None)]"

section \<open>Container factories\<close>

text \<open>
  The factory call as the specification describes it: a creation from a new clone of the
  wiring on which \<^verbatim>\<open>createContainerFactory\<close> was called, with the factory's arguments
  followed by the caller's.
\<close>

definition spec_factory_call ::
  "nat \<Rightarrow> env \<Rightarrow> wiring \<Rightarrow> string \<Rightarrow> arg list \<Rightarrow> arg list
    \<Rightarrow> (error + container \<times> call list) option" where
  "spec_factory_call fuel env originating containerType fArgs callerArgs =
     createContainer fuel env originating containerType (fArgs @ callerArgs)"

text \<open>
  The wiring built after \<^verbatim>\<open>adjustBaseWiring(a10)\<close> and \<^verbatim>\<open>adjustWiringAfter('Test', a12)\<close>, and
  the wiring of the factories for \<^verbatim>\<open>Test\<close> made from it where adjuster 10 adds the wiring
  that registers container adjuster 2 for \<^verbatim>\<open>Test\<close>.
\<close>

definition factory_wiring :: wiring where
  "factory_wiring =
     Wiring 0 [('''', [10, 12]), (''.Test'', [10, 12])] [('''', [10]), (''Test'', [12])]
       [(10, None), (12, None)]"

definition factory_expanded_wiring :: wiring where
  "factory_expanded_wiring =
     Wiring 0 [('''', [10, 12]), (''.Test'', [10, 12])] [('''', []), (''Test'', [12])]
       [(10, Some (Wiring 0 [(''.Test'', [2]), ('''', [])] [] [])), (12, None)]"

definition factory_bean :: wiring where
  "factory_bean =
     Wiring 0 [('''', [10, 12]), (''.Test'', [10, 12])] [('''', []), (''Test'', [])]
       [(10, Some (Wiring 0 [(''.Test'', [2]), ('''', [])] [] [])),
        (12, Some (Wiring 0 [('''', []), (''.Test'', [])] [] []))]"

section \<open>Wiring adjusters pending after a creation\<close>

text \<open>
  An environment in which wiring adjusters add only wirings built by builders (the comment
  in the callback asks for it: only public wiring, from which no container has been
  created yet, should be passed).
\<close>

definition supplies_built_wiring :: "env \<Rightarrow> bool" where
  "supplies_built_wiring env =
     (\<forall>a arg x. AddWiring x \<in> set (wiringAdjusterCalls env a arg)
        \<longrightarrow> (\<exists>b. definition_phase b \<and> x = build b))"

text \<open>
  The lists of pending wiring adjusters are complete: the keys are distinct and are the
  empty string or valid container types, the list of a type holds the adjusters of the
  lists of its ancestors, and a type with a list of container adjusters has a list of
  wiring adjusters.
\<close>

definition pending_lists_complete :: "wiring \<Rightarrow> bool" where
  "pending_lists_complete w =
     (distinct (map fst (wiringAdjusters w)) \<and> ancestor_inclusive (wiringAdjusters w)
      \<and> (\<forall>k \<in> set (map fst (wiringAdjusters w)). k = '''' \<or> isValidContainerType k)
      \<and> (\<forall>X. map_of (containerAdjusters w) (''.'' @ X) \<noteq> None
            \<longrightarrow> map_of (wiringAdjusters w) X \<noteq> None))"

text \<open>A wiring adjuster is unresolved while its value in the map is \<^verbatim>\<open>null\<close>.\<close>

definition unresolved :: "wiring \<Rightarrow> adjuster \<Rightarrow> bool" where
  "unresolved w a = (map_of (wiringSuppliedByWiringAdjusters w) a = Some None)"

definition all_unresolved :: "wiring \<Rightarrow> bool" where
  "all_unresolved w =
     ((\<forall>a \<in> pending_adjusters w. unresolved w a)
      \<and> (\<forall>a v. map_of (wiringSuppliedByWiringAdjusters w) a = Some v \<longrightarrow> v = None))"

text \<open>
  The wiring built after \<^verbatim>\<open>adjustWiringAfter('A', a12)\<close> and \<^verbatim>\<open>adjustContainer('A.B', a1)\<close>, an
  environment in which wiring adjuster 12 adds the wiring built after
  \<^verbatim>\<open>adjustContainer('A.B', a2)\<close>, and the wiring bean of a container of type \<^verbatim>\<open>A.B\<close> created
  from the first wiring.
\<close>

definition after_wiring :: wiring where
  "after_wiring =
     Wiring 0 [(''.A'', [12]), ('''', [12]), (''.A.B'', [12, 1])] [(''A'', [12]), (''A.B'', [12])]
       [(12, None)]"

definition supplied_wiring :: wiring where
  "supplied_wiring = Wiring 0 [(''.A.B'', [2])] [(''A.B'', [])] []"

definition after_env :: env where
  "after_env = \<lparr>wiringAdjusterCalls = (\<lambda>a c. if a = 12 then [AddWiring supplied_wiring] else []),
                 containerAdjusterThrows = (\<lambda>a t l args. False)\<rparr>"

definition after_bean :: wiring where
  "after_bean =
     Wiring 0 [(''.A'', [12]), ('''', [12]), (''.A.B'', [12, 1])] [(''A'', [12]), (''A.B'', [])]
       [(12, Some (Wiring 0 [(''.A.B'', [2]), (''.A'', []), ('''', [])] [] []))]"

section \<open>Properties\<close>

subsection \<open>Facts about the registry\<close>

lemma pushAdjusters_append [simp]: "pushAdjusters l xs = l @ xs"
  unfolding pushAdjusters_def by (induction xs arbitrary: l) auto

lemma clone_id [simp]: "clone w = w"
  by (cases w) (simp add: clone_def)

lemma map_of_map_values:
  "map_of (map (\<lambda>(k, v). (k, f k v)) c) k = map_option (f k) (map_of c k)"
  by (induction c) auto

lemma fst_map_values: "map fst (map (\<lambda>(k, v). (k, f k v)) c) = map fst c"
  by (induction c) auto

lemma pushAdjustersAt_alt:
  "pushAdjustersAt c T xs = map (\<lambda>(k, l). (k, if k = T then l @ xs else l)) c"
  unfolding pushAdjustersAt_def by (induction c) auto

lemma pushAdjustersIntoDescendants_alt:
  "pushAdjustersIntoDescendants c T xs =
     map (\<lambda>(k, l). (k, if is_ancestor T k then l @ xs else l)) c"
  unfolding pushAdjustersIntoDescendants_def is_ancestor_def by (induction c) auto

lemma pushAdjustersIntoUnknownDescendants_alt:
  "pushAdjustersIntoUnknownDescendants c T xs r =
     map (\<lambda>(k, l). (k, if is_ancestor T k \<and> map_of r k = None then l @ xs else l)) c"
  unfolding pushAdjustersIntoUnknownDescendants_def is_ancestor_def by (induction c) auto

lemma shiftAt_alt: "shiftAt c T = map (\<lambda>(k, l). (k, if k = T then tl l else l)) c"
  unfolding shiftAt_def by (induction c) auto

lemma keys_pushAdjustersAt [simp]: "map fst (pushAdjustersAt c T xs) = map fst c"
  by (auto simp: pushAdjustersAt_alt)

lemma keys_pushAdjustersIntoDescendants [simp]:
  "map fst (pushAdjustersIntoDescendants c T xs) = map fst c"
  by (auto simp: pushAdjustersIntoDescendants_alt)

lemma keys_pushAdjustersIntoUnknownDescendants [simp]:
  "map fst (pushAdjustersIntoUnknownDescendants c T xs r) = map fst c"
  by (auto simp: pushAdjustersIntoUnknownDescendants_alt)

lemma keys_shiftAt [simp]: "map fst (shiftAt c T) = map fst c"
  by (auto simp: shiftAt_alt)

lemma map_of_pushAdjustersAt:
  "map_of (pushAdjustersAt c T xs) k =
     (if k = T then map_option (\<lambda>l. l @ xs) (map_of c k) else map_of c k)"
  by (cases "map_of c k") (auto simp: pushAdjustersAt_alt map_of_map_values)

lemma map_of_pushAdjustersIntoDescendants:
  "map_of (pushAdjustersIntoDescendants c T xs) k =
     (if is_ancestor T k then map_option (\<lambda>l. l @ xs) (map_of c k) else map_of c k)"
  by (cases "map_of c k") (auto simp: pushAdjustersIntoDescendants_alt map_of_map_values)

lemma map_of_pushAdjustersIntoUnknownDescendants:
  "map_of (pushAdjustersIntoUnknownDescendants c T xs r) k =
     (if is_ancestor T k \<and> map_of r k = None
      then map_option (\<lambda>l. l @ xs) (map_of c k) else map_of c k)"
  by (cases "map_of c k") (auto simp: pushAdjustersIntoUnknownDescendants_alt map_of_map_values)

lemma map_of_shiftAt:
  "map_of (shiftAt c T) k = (if k = T then map_option tl (map_of c k) else map_of c k)"
  by (cases "map_of c k") (auto simp: shiftAt_alt map_of_map_values)

lemma map_of_ensureContainerTypeExists:
  "map_of (ensureContainerTypeExists c T) k =
     (if k = T \<and> map_of c T = None then Some (getAncestorAdjusters c T) else map_of c k)"
  by (auto simp: ensureContainerTypeExists_def map_add_def split: option.splits)

lemma keys_ensureContainerTypeExists:
  "map fst (ensureContainerTypeExists c T) =
     (if map_of c T = None then map fst c @ [T] else map fst c)"
  by (simp add: ensureContainerTypeExists_def)

lemma map_of_None_iff_keys: "map_of c k = None \<longleftrightarrow> k \<notin> set (map fst c)"
  by (simp add: map_of_eq_None_iff)

lemma distinct_keys_ensure:
  "distinct (map fst c) \<Longrightarrow> distinct (map fst (ensureContainerTypeExists c T))"
  by (auto simp: keys_ensureContainerTypeExists map_of_eq_None_iff)

lemma is_ancestor_trans: "is_ancestor A B \<Longrightarrow> is_ancestor B C \<Longrightarrow> is_ancestor A C"
  unfolding is_ancestor_def prefix_def by auto

lemma is_ancestor_irrefl: "\<not> is_ancestor A A"
  unfolding is_ancestor_def prefix_def by auto

lemma split_dot_nonempty [simp]: "split_dot s \<noteq> []"
  by (induction s) (auto split: list.splits)

lemma join_split_dot [simp]: "join_dot (split_dot s) = s"
proof (induction s)
  case Nil
  show ?case by simp
next
  case (Cons c s)
  obtain x xs where sp: "split_dot s = x # xs"
    by (cases "split_dot s") auto
  show ?case
  proof (cases "c = CHR ''.''")
    case True
    with Cons sp show ?thesis by simp
  next
    case False
    with Cons sp show ?thesis by (cases xs) auto
  qed
qed

lemma split_dot_append: "split_dot (a @ CHR ''.'' # b) = split_dot a @ split_dot b"
proof (induction a)
  case Nil
  show ?case by simp
next
  case (Cons c a)
  obtain x xs where sp: "split_dot a = x # xs"
    by (cases "split_dot a") auto
  show ?case
    using Cons sp by (auto split: list.splits)
qed

lemma join_dot_append:
  "xs \<noteq> [] \<Longrightarrow> ys \<noteq> [] \<Longrightarrow> join_dot (xs @ ys) = join_dot xs @ CHR ''.'' # join_dot ys"
proof (induction xs rule: join_dot.induct)
  case 1
  then show ?case by simp
next
  case (2 x)
  then show ?case by (cases ys) auto
next
  case (3 x y zs)
  then show ?case by simp
qed

lemma take_is_ancestor:
  assumes "0 < k" "k < length (split_dot T)"
  shows "is_ancestor (join_dot (take k (split_dot T))) T"
proof -
  let ?cs = "split_dot T"
  have "take k ?cs \<noteq> []" "drop k ?cs \<noteq> []" using assms by auto
  then have "join_dot (take k ?cs @ drop k ?cs)
      = join_dot (take k ?cs) @ CHR ''.'' # join_dot (drop k ?cs)"
    by (rule join_dot_append)
  then have "T = join_dot (take k ?cs) @ CHR ''.'' # join_dot (drop k ?cs)" by simp
  then show ?thesis unfolding is_ancestor_def prefix_def by auto
qed

lemma is_ancestor_take:
  assumes "is_ancestor A T"
  shows "\<exists>k. 0 < k \<and> k < length (split_dot T) \<and> A = join_dot (take k (split_dot T))"
proof -
  from assms obtain B where T: "T = A @ CHR ''.'' # B"
    unfolding is_ancestor_def prefix_def by auto
  have sp: "split_dot T = split_dot A @ split_dot B" unfolding T by (rule split_dot_append)
  let ?k = "length (split_dot A)"
  have "0 < ?k" by simp
  moreover have "?k < length (split_dot T)" using sp by simp
  moreover have "join_dot (take ?k (split_dot T)) = A" using sp by simp
  ultimately show ?thesis by metis
qed

lemma take_take_is_ancestor:
  assumes "0 < j" "j < k" "k \<le> length cs"
  shows "is_ancestor (join_dot (take j cs)) (join_dot (take k cs))"
proof -
  define ks where "ks = take k cs"
  have len: "length ks = k" using assms by (simp add: ks_def)
  have ne: "take j ks \<noteq> []" "drop j ks \<noteq> []" using assms len by auto
  have tj: "take j ks = take j cs" using assms by (simp add: ks_def min_def)
  have "join_dot ks = join_dot (take j ks @ drop j ks)" by simp
  also have "\<dots> = join_dot (take j ks) @ CHR ''.'' # join_dot (drop j ks)"
    using ne by (rule join_dot_append)
  finally have "join_dot ks = join_dot (take j cs) @ CHR ''.'' # join_dot (drop j ks)"
    by (simp only: tj)
  then show ?thesis unfolding is_ancestor_def prefix_def ks_def by auto
qed

lemma getAncestorAdjusters_loop_cases:
  "getAncestorAdjusters_loop c cs = L \<Longrightarrow>
     (\<exists>k. 0 < k \<and> k < length cs \<and> map_of c (join_dot (take k cs)) = Some L
          \<and> (\<forall>j. k < j \<and> j < length cs \<longrightarrow> map_of c (join_dot (take j cs)) = None))
     \<or> (L = [] \<and> (\<forall>j. 0 < j \<and> j < length cs \<longrightarrow> map_of c (join_dot (take j cs)) = None))"
proof (induction c cs rule: getAncestorAdjusters_loop.induct)
  case (1 c cs)
  show ?case
  proof (cases "length cs > 1")
    case False
    with "1.prems" have "L = []" by (simp add: getAncestorAdjusters_loop.simps[of c cs])
    moreover have "\<forall>j. 0 < j \<and> j < length cs \<longrightarrow> map_of c (join_dot (take j cs)) = None"
      using False by auto
    ultimately show ?thesis by blast
  next
    case True
    have bl: "butlast cs = take (length cs - 1) cs" by (simp add: butlast_conv_take)
    show ?thesis
    proof (cases "map_of c (join_dot (butlast cs))")
      case (Some adjs)
      with True "1.prems" have "L = adjs" by (simp add: getAncestorAdjusters_loop.simps[of c cs])
      with Some bl have "map_of c (join_dot (take (length cs - 1) cs)) = Some L" by simp
      moreover have "\<forall>j. length cs - 1 < j \<and> j < length cs \<longrightarrow> map_of c (join_dot (take j cs)) = None"
        by auto
      ultimately show ?thesis using True
        by (intro disjI1 exI[of _ "length cs - 1"]) auto
    next
      case None
      with True "1.prems" have rec: "getAncestorAdjusters_loop c (butlast cs) = L"
        by (simp add: getAncestorAdjusters_loop.simps[of c cs])
      have tk: "take j (butlast cs) = take j cs" if "j < length cs" for j
      proof -
        from that have "min j (length cs - 1) = j" by simp
        then show ?thesis by (simp add: bl)
      qed
      have last_none: "map_of c (join_dot (take (length cs - 1) cs)) = None"
        using None bl by simp
      from "1.IH"[OF True None rec]
      show ?thesis
      proof
        assume "\<exists>k. 0 < k \<and> k < length (butlast cs) \<and> map_of c (join_dot (take k (butlast cs))) = Some L
          \<and> (\<forall>j. k < j \<and> j < length (butlast cs) \<longrightarrow> map_of c (join_dot (take j (butlast cs))) = None)"
        then obtain k where k: "0 < k" "k < length cs - 1"
          "map_of c (join_dot (take k (butlast cs))) = Some L"
          "\<forall>j. k < j \<and> j < length cs - 1 \<longrightarrow> map_of c (join_dot (take j (butlast cs))) = None"
          by auto
        have "map_of c (join_dot (take k cs)) = Some L" using k tk[of k] by simp
        moreover have "\<forall>j. k < j \<and> j < length cs \<longrightarrow> map_of c (join_dot (take j cs)) = None"
        proof (intro allI impI)
          fix j assume j: "k < j \<and> j < length cs"
          show "map_of c (join_dot (take j cs)) = None"
          proof (cases "j = length cs - 1")
            case True then show ?thesis using last_none by simp
          next
            case False
            with j have "j < length cs - 1" by linarith
            with k(4) j tk[of j] show ?thesis by metis
          qed
        qed
        ultimately show ?thesis using k(1,2) by (intro disjI1 exI[of _ k]) auto
      next
        assume a: "L = [] \<and> (\<forall>j. 0 < j \<and> j < length (butlast cs) \<longrightarrow> map_of c (join_dot (take j (butlast cs))) = None)"
        have "\<forall>j. 0 < j \<and> j < length cs \<longrightarrow> map_of c (join_dot (take j cs)) = None"
        proof (intro allI impI)
          fix j assume j: "0 < j \<and> j < length cs"
          show "map_of c (join_dot (take j cs)) = None"
          proof (cases "j = length cs - 1")
            case True then show ?thesis using last_none by simp
          next
            case False
            with j have "j < length cs - 1" by linarith
            with a j tk[of j] show ?thesis by (metis length_butlast)
          qed
        qed
        with a show ?thesis by blast
      qed
    qed
  qed
qed

lemma getAncestorAdjusters_cases:
  assumes "getAncestorAdjusters c T = L"
  shows "(\<exists>N. is_ancestor N T \<and> map_of c N = Some L
            \<and> (\<forall>A. is_ancestor A T \<and> map_of c A \<noteq> None \<longrightarrow> A = N \<or> is_ancestor A N))
         \<or> (L = [] \<and> (\<forall>A. is_ancestor A T \<longrightarrow> map_of c A = None))"
proof -
  let ?cs = "split_dot T"
  from assms have "getAncestorAdjusters_loop c ?cs = L" by (simp add: getAncestorAdjusters_def)
  from getAncestorAdjusters_loop_cases[OF this]
  show ?thesis
  proof
    assume "\<exists>k. 0 < k \<and> k < length ?cs \<and> map_of c (join_dot (take k ?cs)) = Some L
          \<and> (\<forall>j. k < j \<and> j < length ?cs \<longrightarrow> map_of c (join_dot (take j ?cs)) = None)"
    then obtain k where k: "0 < k" "k < length ?cs" "map_of c (join_dot (take k ?cs)) = Some L"
      "\<forall>j. k < j \<and> j < length ?cs \<longrightarrow> map_of c (join_dot (take j ?cs)) = None" by auto
    let ?N = "join_dot (take k ?cs)"
    have "is_ancestor ?N T" using k by (intro take_is_ancestor)
    moreover have "\<forall>A. is_ancestor A T \<and> map_of c A \<noteq> None \<longrightarrow> A = ?N \<or> is_ancestor A ?N"
    proof (intro allI impI)
      fix A assume A: "is_ancestor A T \<and> map_of c A \<noteq> None"
      then obtain j where j: "0 < j" "j < length ?cs" "A = join_dot (take j ?cs)"
        using is_ancestor_take by blast
      have "\<not> k < j" using k(4) j A by auto
      then consider "j = k" | "j < k" by linarith
      then show "A = ?N \<or> is_ancestor A ?N"
      proof cases
        case 1 then show ?thesis using j by simp
      next
        case 2
        then have "is_ancestor (join_dot (take j ?cs)) (join_dot (take k ?cs))"
          using j k by (intro take_take_is_ancestor) auto
        then show ?thesis using j by simp
      qed
    qed
    ultimately show ?thesis using k(3) by blast
  next
    assume a: "L = [] \<and> (\<forall>j. 0 < j \<and> j < length ?cs \<longrightarrow> map_of c (join_dot (take j ?cs)) = None)"
    have "\<forall>A. is_ancestor A T \<longrightarrow> map_of c A = None"
    proof (intro allI impI)
      fix A assume "is_ancestor A T"
      then obtain j where j: "0 < j" "j < length ?cs" "A = join_dot (take j ?cs)"
        using is_ancestor_take by blast
      with a show "map_of c A = None" by simp
    qed
    with a show ?thesis by blast
  qed
qed

lemma ancestor_inclusive_iff:
  assumes "distinct (map fst c)"
  shows "ancestor_inclusive c \<longleftrightarrow> inclusive_map (map_of c)"
proof
  assume ai: "ancestor_inclusive c"
  show "inclusive_map (map_of c)"
    unfolding inclusive_map_def
  proof (intro allI impI)
    fix A D la ld
    assume "map_of c A = Some la" "map_of c D = Some ld" "is_ancestor A D"
    then have "(A, la) \<in> set c" "(D, ld) \<in> set c" by (auto dest: map_of_SomeD)
    with ai \<open>is_ancestor A D\<close> show "set la \<subseteq> set ld"
      unfolding ancestor_inclusive_def by blast
  qed
next
  assume im: "inclusive_map (map_of c)"
  show "ancestor_inclusive c"
    unfolding ancestor_inclusive_def
  proof (intro ballI, clarify)
    fix A la D ld x
    assume "(A, la) \<in> set c" "(D, ld) \<in> set c" "is_ancestor A D" "x \<in> set la"
    then have "map_of c A = Some la" "map_of c D = Some ld"
      using assms by auto
    with im \<open>is_ancestor A D\<close> \<open>x \<in> set la\<close> show "x \<in> set ld"
      unfolding inclusive_map_def by blast
  qed
qed

lemma inclusive_map_ensure:
  assumes "inclusive_map (map_of c)"
  shows "inclusive_map (map_of (ensureContainerTypeExists c T))"
proof (cases "map_of c T")
  case (Some l)
  then show ?thesis using assms by (simp add: ensureContainerTypeExists_def)
next
  case None
  define L where "L = getAncestorAdjusters c T"
  have lk: "map_of (ensureContainerTypeExists c T) X = (if X = T then Some L else map_of c X)" for X
    using None by (simp add: map_of_ensureContainerTypeExists L_def)
  from getAncestorAdjusters_cases[OF L_def[symmetric]]
  consider N where "is_ancestor N T" "map_of c N = Some L"
      "\<forall>A. is_ancestor A T \<and> map_of c A \<noteq> None \<longrightarrow> A = N \<or> is_ancestor A N"
    | "L = []" "\<forall>A. is_ancestor A T \<longrightarrow> map_of c A = None"
    by blast
  then show ?thesis
  proof cases
    case 1
    show ?thesis
      unfolding inclusive_map_def
    proof (intro allI impI)
      fix A D la ld
      assume a: "map_of (ensureContainerTypeExists c T) A = Some la"
        and d: "map_of (ensureContainerTypeExists c T) D = Some ld"
        and ad: "is_ancestor A D"
      show "set la \<subseteq> set ld"
      proof (cases "A = T")
        case True
        then have la: "la = L" using a lk by simp
        have "D \<noteq> T" using ad True is_ancestor_irrefl by auto
        then have dd: "map_of c D = Some ld" using d lk by simp
        have "is_ancestor N D" using 1(1) ad True is_ancestor_trans by blast
        with assms 1(2) dd show ?thesis unfolding inclusive_map_def la by blast
      next
        case False
        then have aa: "map_of c A = Some la" using a lk by simp
        show ?thesis
        proof (cases "D = T")
          case True
          then have ld: "ld = L" using d lk by simp
          have "A = N \<or> is_ancestor A N" using 1(3) ad True aa by auto
          then show ?thesis
          proof
            assume "A = N" with aa 1(2) ld show ?thesis by simp
          next
            assume "is_ancestor A N"
            with assms aa 1(2) show ?thesis unfolding inclusive_map_def ld by blast
          qed
        next
          case False
          then have "map_of c D = Some ld" using d lk by simp
          with assms aa ad show ?thesis unfolding inclusive_map_def by blast
        qed
      qed
    qed
  next
    case 2
    show ?thesis
      unfolding inclusive_map_def
    proof (intro allI impI)
      fix A D la ld
      assume a: "map_of (ensureContainerTypeExists c T) A = Some la"
        and d: "map_of (ensureContainerTypeExists c T) D = Some ld"
        and ad: "is_ancestor A D"
      show "set la \<subseteq> set ld"
      proof (cases "A = T")
        case True
        then show ?thesis using a lk 2(1) by simp
      next
        case False
        then have aa: "map_of c A = Some la" using a lk by simp
        have "D \<noteq> T" using 2(2) ad aa by auto
        then have "map_of c D = Some ld" using d lk by simp
        with assms aa ad show ?thesis unfolding inclusive_map_def by blast
      qed
    qed
  qed
qed

lemma map_of_addAdjuster:
  "map_of (addAdjuster c T f) X =
     (if X = T then Some ((case map_of c T of Some l \<Rightarrow> l | None \<Rightarrow> getAncestorAdjusters c T) @ [f])
      else if is_ancestor T X then map_option (\<lambda>l. l @ [f]) (map_of c X)
      else map_of c X)"
  by (auto simp: addAdjuster_def map_of_pushAdjustersIntoDescendants map_of_pushAdjustersAt
      map_of_ensureContainerTypeExists is_ancestor_irrefl split: option.splits)

lemma inclusive_map_push_descendants:
  assumes "inclusive_map (map_of c)"
  shows "inclusive_map (map_of (pushAdjustersIntoDescendants (pushAdjustersAt c T xs) T xs))"
  unfolding inclusive_map_def
proof (intro allI impI)
  fix A D la ld
  let ?c' = "pushAdjustersIntoDescendants (pushAdjustersAt c T xs) T xs"
  assume a: "map_of ?c' A = Some la" and d: "map_of ?c' D = Some ld" and ad: "is_ancestor A D"
  have lk: "map_of ?c' X = (if X = T \<or> is_ancestor T X then map_option (\<lambda>l. l @ xs) (map_of c X) else map_of c X)" for X
    by (auto simp: map_of_pushAdjustersIntoDescendants map_of_pushAdjustersAt is_ancestor_irrefl)
  from a obtain la0 where la0: "map_of c A = Some la0" "la = (if A = T \<or> is_ancestor T A then la0 @ xs else la0)"
    by (auto simp: lk split: if_splits)
  from d obtain ld0 where ld0: "map_of c D = Some ld0" "ld = (if D = T \<or> is_ancestor T D then ld0 @ xs else ld0)"
    by (auto simp: lk split: if_splits)
  have sub: "set la0 \<subseteq> set ld0" using assms la0(1) ld0(1) ad unfolding inclusive_map_def by blast
  have "A = T \<or> is_ancestor T A \<Longrightarrow> is_ancestor T D" using ad is_ancestor_trans by blast
  then show "set la \<subseteq> set ld" using sub la0(2) ld0(2) by auto
qed

lemma inclusive_map_addAdjuster:
  "inclusive_map (map_of c) \<Longrightarrow> inclusive_map (map_of (addAdjuster c T f))"
  unfolding addAdjuster_def
  by (intro inclusive_map_push_descendants inclusive_map_ensure)

lemma distinct_keys_addAdjuster:
  "distinct (map fst c) \<Longrightarrow> distinct (map fst (addAdjuster c T f))"
  by (simp add: addAdjuster_def distinct_keys_ensure)

lemma map_of_addAdjusters_step:
  "map_of (addAdjusters_step src d (T, L)) X =
     (if X = T
      then Some ((case map_of d T of Some l \<Rightarrow> l | None \<Rightarrow> getAncestorAdjusters d T) @ L)
      else if is_ancestor T X \<and> map_of src X = None
           then map_option (\<lambda>l. l @ L) (map_of d X)
           else map_of d X)"
  by (auto simp: addAdjusters_step_def map_of_pushAdjustersIntoUnknownDescendants
      map_of_pushAdjustersAt map_of_ensureContainerTypeExists is_ancestor_irrefl
      split: option.splits)

lemma keys_addAdjusters_step:
  "map fst (addAdjusters_step src d (T, L)) =
     (if map_of d T = None then map fst d @ [T] else map fst d)"
  by (simp add: addAdjusters_step_def keys_ensureContainerTypeExists)

lemma addAdjusters_step_grows:
  assumes "map_of d X = Some l"
  shows "\<exists>l'. map_of (addAdjusters_step src d (T, L)) X = Some (l @ l')"
  using assms by (auto simp: map_of_addAdjusters_step)

lemma addAdjusters_step_invariant:
  fixes P P' :: "string \<Rightarrow> adjuster set"
  assumes src_incl: "inclusive_map (map_of src)"
    and srcT: "map_of src T = Some L"
    and J: "\<And>A D la ld. map_of d A = Some la \<Longrightarrow> map_of d D = Some ld \<Longrightarrow> is_ancestor A D
              \<Longrightarrow> set la \<subseteq> set ld \<union> P D"
    and P'eq: "\<And>D. D \<noteq> T \<Longrightarrow> P' D = P D"
    and PT: "P T \<subseteq> set L"
    and Psrc: "\<And>D. P D \<subseteq> (case map_of src D of Some l \<Rightarrow> set l | None \<Rightarrow> {})"
    and K: "\<And>D lD. map_of src D = Some lD \<Longrightarrow> D \<noteq> T \<Longrightarrow>
              set lD \<subseteq> P D \<or> (\<exists>ld. map_of d D = Some ld \<and> set lD \<subseteq> set ld)"
    and a: "map_of (addAdjusters_step src d (T, L)) A = Some la"
    and d: "map_of (addAdjusters_step src d (T, L)) D = Some ld"
    and ad: "is_ancestor A D"
  shows "set la \<subseteq> set ld \<union> P' D"
proof -
  let ?d' = "addAdjusters_step src d (T, L)"
  define base where "base = (case map_of d T of Some l \<Rightarrow> l | None \<Rightarrow> getAncestorAdjusters d T)"
  have lk: "map_of ?d' X =
     (if X = T then Some (base @ L)
      else if is_ancestor T X \<and> map_of src X = None then map_option (\<lambda>l. l @ L) (map_of d X)
      else map_of d X)" for X
    by (simp add: map_of_addAdjusters_step base_def)
  have grow: "\<exists>l'. map_of ?d' X = Some (l @ l')" if "map_of d X = Some l" for X l
    using that by (rule addAdjusters_step_grows)
  \<comment> \<open>the adjusters of \<open>L\<close> reach every descendant of \<open>T\<close>, now or later\<close>
  have L_reaches: "set L \<subseteq> set ld \<union> P' D" if td: "is_ancestor T D"
  proof (cases "map_of src D")
    case None
    have "D \<noteq> T" using td is_ancestor_irrefl by auto
    with d lk td None obtain l0 where "ld = l0 @ L" by (auto split: if_splits)
    then show ?thesis by auto
  next
    case (Some lD)
    have ne: "D \<noteq> T" using td is_ancestor_irrefl by auto
    have sub: "set L \<subseteq> set lD" using src_incl srcT Some td unfolding inclusive_map_def by blast
    from K[OF Some ne] show ?thesis
    proof
      assume "set lD \<subseteq> P D" with sub P'eq[OF ne] show ?thesis by auto
    next
      assume "\<exists>l. map_of d D = Some l \<and> set lD \<subseteq> set l"
      then obtain l where l: "map_of d D = Some l" "set lD \<subseteq> set l" by blast
      from grow[OF l(1)] d obtain l' where "ld = l @ l'" by auto
      with l(2) sub show ?thesis by auto
    qed
  qed
  \<comment> \<open>what was in the list of a known type stays below its descendants\<close>
  have old_reaches: "set l \<subseteq> set ld \<union> P' D"
    if x: "map_of d X = Some l" and xd: "is_ancestor X D" for X l
  proof (cases "D = T")
    case False
    with d lk obtain l0 where l0: "map_of d D = Some l0" "set l0 \<subseteq> set ld"
      by (auto split: if_splits)
    from J[OF x l0(1) xd] l0(2) P'eq[OF False] show ?thesis by auto
  next
    case True
    then have ld: "ld = base @ L" using d lk by simp
    show ?thesis
    proof (cases "map_of d T")
      case (Some lT)
      then have "base = lT" by (simp add: base_def)
      moreover from J[OF x Some] xd True have "set l \<subseteq> set lT \<union> P T" by simp
      ultimately show ?thesis using PT ld by auto
    next
      case None
      then have b: "getAncestorAdjusters d T = base" by (simp add: base_def)
      from getAncestorAdjusters_cases[OF b] x xd True
      obtain N where N: "is_ancestor N T" "map_of d N = Some base" "X = N \<or> is_ancestor X N"
        by auto
      from N(3) show ?thesis
      proof
        assume "X = N" with x N(2) ld show ?thesis by auto
      next
        assume xn: "is_ancestor X N"
        from J[OF x N(2) xn] have 1: "set l \<subseteq> set base \<union> P N" .
        have "P N \<subseteq> set L"
        proof (cases "map_of src N")
          case None with Psrc[of N] show ?thesis by simp
        next
          case (Some lN)
          with Psrc[of N] have "P N \<subseteq> set lN" by simp
          moreover have "set lN \<subseteq> set L"
            using src_incl Some srcT N(1) unfolding inclusive_map_def by blast
          ultimately show ?thesis by blast
        qed
        with 1 ld show ?thesis by auto
      qed
    qed
  qed
  show ?thesis
  proof (cases "A = T")
    case True
    then have la: "la = base @ L" using a lk by simp
    have td: "is_ancestor T D" using ad True by simp
    have "set base \<subseteq> set ld \<union> P' D"
    proof (cases "map_of d T")
      case (Some lT)
      then have "base = lT" by (simp add: base_def)
      with old_reaches[OF Some td] show ?thesis by simp
    next
      case None
      then have b: "getAncestorAdjusters d T = base" by (simp add: base_def)
      from getAncestorAdjusters_cases[OF b]
      show ?thesis
      proof
        assume "\<exists>N. is_ancestor N T \<and> map_of d N = Some base
            \<and> (\<forall>A. is_ancestor A T \<and> map_of d A \<noteq> None \<longrightarrow> A = N \<or> is_ancestor A N)"
        then obtain N where N: "is_ancestor N T" "map_of d N = Some base" by blast
        have "is_ancestor N D" using N(1) td is_ancestor_trans by blast
        from old_reaches[OF N(2) this] show ?thesis .
      next
        assume "base = [] \<and> (\<forall>A. is_ancestor A T \<longrightarrow> map_of d A = None)"
        then show ?thesis by simp
      qed
    qed
    with L_reaches[OF td] la show ?thesis by auto
  next
    case False
    with a lk obtain la0 where la0: "map_of d A = Some la0"
      "la = (if is_ancestor T A \<and> map_of src A = None then la0 @ L else la0)"
      by (auto split: if_splits)
    have 1: "set la0 \<subseteq> set ld \<union> P' D" using old_reaches[OF la0(1) ad] .
    show ?thesis
    proof (cases "is_ancestor T A \<and> map_of src A = None")
      case True
      then have "is_ancestor T D" using ad is_ancestor_trans by blast
      from L_reaches[OF this] 1 la0(2) True show ?thesis by auto
    next
      case False
      with 1 la0(2) show ?thesis by auto
    qed
  qed
qed

lemma addAdjusters_fold_invariant:
  assumes src_incl: "inclusive_map (map_of src)" and dist: "distinct (map fst src)"
  shows "src = pre @ rem \<Longrightarrow>
     (\<forall>A D la ld. map_of d A = Some la \<longrightarrow> map_of d D = Some ld \<longrightarrow> is_ancestor A D
        \<longrightarrow> set la \<subseteq> set ld \<union> (case map_of rem D of Some l \<Rightarrow> set l | None \<Rightarrow> {})) \<Longrightarrow>
     (\<forall>D lD. map_of src D = Some lD \<longrightarrow>
        set lD \<subseteq> (case map_of rem D of Some l \<Rightarrow> set l | None \<Rightarrow> {})
        \<or> (\<exists>ld. map_of d D = Some ld \<and> set lD \<subseteq> set ld)) \<Longrightarrow>
     inclusive_map (map_of (foldl (addAdjusters_step src) d rem))"
proof (induction rem arbitrary: d pre)
  case Nil
  then show ?case unfolding inclusive_map_def by simp
next
  case (Cons e rem')
  obtain T L where e: "e = (T, L)" by (cases e)
  let ?P = "\<lambda>D. case map_of (e # rem') D of Some l \<Rightarrow> set l | None \<Rightarrow> {}"
  let ?P' = "\<lambda>D. case map_of rem' D of Some l \<Rightarrow> set l | None \<Rightarrow> {}"
  let ?d' = "addAdjusters_step src d (T, L)"
  have src: "src = pre @ (T, L) # rem'" using Cons.prems(1) e by simp
  have srcT: "map_of src T = Some L" using dist src by (intro map_of_is_SomeI) auto
  have in_src: "map_of src D = Some l" if "map_of (e # rem') D = Some l" for D l
  proof -
    from that have "(D, l) \<in> set (e # rem')" by (rule map_of_SomeD)
    then have "(D, l) \<in> set src" using Cons.prems(1) by auto
    with dist show ?thesis by (intro map_of_is_SomeI)
  qed
  have P'eq: "?P' D = ?P D" if "D \<noteq> T" for D using that e by simp
  have PT: "?P T \<subseteq> set L" using e by simp
  have Psrc: "?P D \<subseteq> (case map_of src D of Some l \<Rightarrow> set l | None \<Rightarrow> {})" for D
  proof (cases "map_of (e # rem') D")
    case None then show ?thesis by simp
  next
    case (Some l)
    with in_src[OF Some] show ?thesis by simp
  qed
  have J: "set la \<subseteq> set ld \<union> ?P D"
    if "map_of d A = Some la" "map_of d D = Some ld" "is_ancestor A D" for A D la ld
    using Cons.prems(2) that by blast
  have K: "set lD \<subseteq> ?P D \<or> (\<exists>ld. map_of d D = Some ld \<and> set lD \<subseteq> set ld)"
    if "map_of src D = Some lD" for D lD
    using Cons.prems(3) that by blast
  have J': "\<forall>A D la ld. map_of ?d' A = Some la \<longrightarrow> map_of ?d' D = Some ld \<longrightarrow> is_ancestor A D
        \<longrightarrow> set la \<subseteq> set ld \<union> ?P' D"
  proof (intro allI impI)
    fix A D la ld
    assume a: "map_of ?d' A = Some la" and dd: "map_of ?d' D = Some ld" and ad: "is_ancestor A D"
    show "set la \<subseteq> set ld \<union> ?P' D"
      by (rule addAdjusters_step_invariant[where P = ?P and P' = ?P', OF src_incl srcT J P'eq PT Psrc K a dd ad])
  qed
  have K': "\<forall>D lD. map_of src D = Some lD \<longrightarrow>
        set lD \<subseteq> ?P' D \<or> (\<exists>ld. map_of ?d' D = Some ld \<and> set lD \<subseteq> set ld)"
  proof (intro allI impI)
    fix D lD assume s: "map_of src D = Some lD"
    show "set lD \<subseteq> ?P' D \<or> (\<exists>ld. map_of ?d' D = Some ld \<and> set lD \<subseteq> set ld)"
    proof (cases "D = T")
      case True
      with s srcT have "lD = L" by simp
      moreover have "\<exists>b. map_of ?d' T = Some (b @ L)" by (simp add: map_of_addAdjusters_step)
      ultimately show ?thesis using True by auto
    next
      case False
      from K[OF s] show ?thesis
      proof
        assume "set lD \<subseteq> ?P D" with P'eq[OF False] show ?thesis by simp
      next
        assume "\<exists>ld. map_of d D = Some ld \<and> set lD \<subseteq> set ld"
        then obtain ld where ld: "map_of d D = Some ld" "set lD \<subseteq> set ld" by blast
        from addAdjusters_step_grows[OF ld(1), of src T L] ld(2) show ?thesis by auto
      qed
    qed
  qed
  have "src = (pre @ [(T, L)]) @ rem'" using src by simp
  from Cons.IH[OF this J' K'] show ?case using e by simp
qed

lemma inclusive_map_addAdjusters:
  assumes "inclusive_map (map_of d)" "inclusive_map (map_of src)" "distinct (map fst src)"
  shows "inclusive_map (map_of (addAdjusters d src))"
  unfolding addAdjusters_def
proof (rule addAdjusters_fold_invariant[OF assms(2,3), of "[]"])
  show "src = [] @ src" by simp
  show "\<forall>A D la ld. map_of d A = Some la \<longrightarrow> map_of d D = Some ld \<longrightarrow> is_ancestor A D
        \<longrightarrow> set la \<subseteq> set ld \<union> (case map_of src D of Some l \<Rightarrow> set l | None \<Rightarrow> {})"
    using assms(1) unfolding inclusive_map_def by blast
  show "\<forall>D lD. map_of src D = Some lD \<longrightarrow>
        set lD \<subseteq> (case map_of src D of Some l \<Rightarrow> set l | None \<Rightarrow> {})
        \<or> (\<exists>ld. map_of d D = Some ld \<and> set lD \<subseteq> set ld)"
    by simp
qed

lemma distinct_keys_addAdjusters_fold:
  "distinct (map fst d) \<Longrightarrow> distinct (map fst (foldl (addAdjusters_step src) d rem))"
proof (induction rem arbitrary: d)
  case Nil then show ?case by simp
next
  case (Cons e rem)
  obtain T L where e: "e = (T, L)" by (cases e)
  have "distinct (map fst (addAdjusters_step src d (T, L)))"
    using Cons.prems by (auto simp: keys_addAdjusters_step map_of_eq_None_iff)
  from Cons.IH[OF this] show ?case using e by simp
qed

lemma distinct_keys_addAdjusters:
  "distinct (map fst d) \<Longrightarrow> distinct (map fst (addAdjusters d src))"
  unfolding addAdjusters_def by (rule distinct_keys_addAdjusters_fold)

subsection \<open>The nearest known ancestor\<close>

lemma is_ancestor_iff_take:
  "is_ancestor A T \<longleftrightarrow> (\<exists>i < length T. T ! i = CHR ''.'' \<and> A = take i T)"
proof
  assume "is_ancestor A T"
  then obtain B where T: "T = A @ CHR ''.'' # B" unfolding is_ancestor_def prefix_def by auto
  have "length A < length T" "T ! length A = CHR ''.''" "A = take (length A) T"
    unfolding T by simp_all
  then show "\<exists>i < length T. T ! i = CHR ''.'' \<and> A = take i T" by blast
next
  assume "\<exists>i < length T. T ! i = CHR ''.'' \<and> A = take i T"
  then obtain i where i: "i < length T" "T ! i = CHR ''.''" "A = take i T" by blast
  have "T = take i T @ T ! i # drop (Suc i) T" using i(1) by (rule id_take_nth_drop)
  then have "T = A @ ''.'' @ drop (Suc i) T" using i by simp
  then show "is_ancestor A T" unfolding is_ancestor_def prefix_def by (metis append.assoc)
qed

lemma set_ancestors_of: "set (ancestors_of T) = {A. is_ancestor A T}"
  unfolding ancestors_of_def is_ancestor_iff_take by auto

lemma is_ancestor_length: "is_ancestor A T \<Longrightarrow> length A < length T"
  unfolding is_ancestor_def prefix_def by auto

lemma decreasing_upt: "sorted_wrt (\<lambda>i j. j < i) (rev [0..<n])"
  unfolding sorted_wrt_rev by (rule sorted_wrt_upt)

lemma decreasing_take:
  assumes "sorted_wrt (\<lambda>i j. j < i) xs" and "\<And>i. i \<in> set xs \<Longrightarrow> i < length T"
  shows "sorted_wrt (\<lambda>i j. length (take j T) < length (take i (T::string))) xs"
  using assms by (induction xs) auto

lemma ancestors_of_decreasing:
  "sorted_wrt (\<lambda>a b. length b < length a) (ancestors_of T)"
proof -
  have "sorted_wrt (\<lambda>i j. length (take j T) < length (take i T))
      (filter (\<lambda>i. T ! i = CHR ''.'') (rev [0..<length T]))"
    by (rule decreasing_take[OF sorted_wrt_filter[OF decreasing_upt]]) simp
  then show ?thesis by (simp only: ancestors_of_def sorted_wrt_map)
qed

lemma find_first_known:
  assumes "sorted_wrt (\<lambda>a b. length b < length a) xs"
    and "N \<in> set xs" and "P N"
    and "\<And>A. A \<in> set xs \<Longrightarrow> P A \<Longrightarrow> length A \<le> length N"
  shows "find P xs = Some N"
  using assms
proof (induction xs)
  case Nil then show ?case by simp
next
  case (Cons x xs)
  show ?case
  proof (cases "x = N")
    case True with Cons.prems show ?thesis by simp
  next
    case False
    with Cons.prems have N: "N \<in> set xs" by simp
    have "length N < length x" using Cons.prems(1) N by auto
    then have "\<not> P x" using Cons.prems(4)[of x] by auto
    moreover have "find P xs = Some N"
      using Cons.prems N by (intro Cons.IH) auto
    ultimately show ?thesis by simp
  qed
qed

lemma getAncestorAdjusters_nearest:
  "getAncestorAdjusters c T =
     (case nearest_known_ancestor c T of None \<Rightarrow> [] | Some A \<Rightarrow> stored c A)"
proof -
  define L where "L = getAncestorAdjusters c T"
  from getAncestorAdjusters_cases[OF L_def[symmetric]]
  consider N where "is_ancestor N T" "map_of c N = Some L"
      "\<forall>A. is_ancestor A T \<and> map_of c A \<noteq> None \<longrightarrow> A = N \<or> is_ancestor A N"
    | "L = []" "\<forall>A. is_ancestor A T \<longrightarrow> map_of c A = None"
    by blast
  then have "(case nearest_known_ancestor c T of None \<Rightarrow> [] | Some A \<Rightarrow> stored c A) = L"
  proof cases
    case 1
    have "find (\<lambda>A. map_of c A \<noteq> None) (ancestors_of T) = Some N"
    proof (rule find_first_known[OF ancestors_of_decreasing])
      show "N \<in> set (ancestors_of T)" using 1(1) by (simp add: set_ancestors_of)
      show "map_of c N \<noteq> None" using 1(2) by simp
    next
      fix A assume "A \<in> set (ancestors_of T)" "map_of c A \<noteq> None"
      then have "A = N \<or> is_ancestor A N" using 1(3) by (simp add: set_ancestors_of)
      then show "length A \<le> length N" by (auto dest: is_ancestor_length)
    qed
    then show ?thesis using 1(2) by (simp add: nearest_known_ancestor_def stored_def)
  next
    case 2
    have "find (\<lambda>A. map_of c A \<noteq> None) (ancestors_of T) = None"
      using 2(2) by (simp add: find_None_iff set_ancestors_of)
    then show ?thesis using 2(1) by (simp add: nearest_known_ancestor_def)
  qed
  then show ?thesis by (simp add: L_def)
qed

lemma nearest_example: "ancestors_of ''.A.B.C'' = [''.A.B'', ''.A'', '''']"
  by code_simp

subsection \<open>Facts about the expansion loop\<close>

lemma sel_addSuppliedWiring [simp]:
  "wclass (addSuppliedWiring this w) = wclass this"
  "containerAdjusters (addSuppliedWiring this w) = containerAdjusters this"
  "wiringAdjusters (addSuppliedWiring this w) = wiringAdjusters this"
  "wiringSuppliedByWiringAdjusters (addSuppliedWiring this w) =
     addSuppliedWiring_map (wiringSuppliedByWiringAdjusters this) (wiringSuppliedByWiringAdjusters w)"
  by (simp_all add: addSuppliedWiring_def)

lemma sel_setSuppliedWiring [simp]:
  "wclass (setSuppliedWiring this a sw) = wclass this"
  "containerAdjusters (setSuppliedWiring this a sw) = containerAdjusters this"
  "wiringAdjusters (setSuppliedWiring this a sw) = wiringAdjusters this"
  "wiringSuppliedByWiringAdjusters (setSuppliedWiring this a sw) =
     map_set (wiringSuppliedByWiringAdjusters this) a (Some sw)"
  by (simp_all add: setSuppliedWiring_def)

lemma sel_shiftWiringAdjuster [simp]:
  "wclass (shiftWiringAdjuster this T) = wclass this"
  "containerAdjusters (shiftWiringAdjuster this T) = containerAdjusters this"
  "wiringAdjusters (shiftWiringAdjuster this T) = shiftAt (wiringAdjusters this) T"
  "wiringSuppliedByWiringAdjusters (shiftWiringAdjuster this T) = wiringSuppliedByWiringAdjusters this"
  by (simp_all add: shiftWiringAdjuster_def)

lemma sel_ensureSuppliedWiringKeyExists [simp]:
  "wclass (ensureSuppliedWiringKeyExists this a) = wclass this"
  "containerAdjusters (ensureSuppliedWiringKeyExists this a) = containerAdjusters this"
  "wiringAdjusters (ensureSuppliedWiringKeyExists this a) = wiringAdjusters this"
  by (simp_all add: ensureSuppliedWiringKeyExists_def)

lemma sel_newWiring [simp]:
  "wclass (newWiring cls) = cls"
  "containerAdjusters (newWiring cls) = []"
  "wiringAdjusters (newWiring cls) = []"
  "wiringSuppliedByWiringAdjusters (newWiring cls) = []"
  by (simp_all add: newWiring_def)

lemma sel_addWiringCallback [simp]:
  "wclass (fst (addWiringCallback (this, sw) x)) = wclass this"
  "containerAdjusters (fst (addWiringCallback (this, sw) x)) = containerAdjusters this"
  "wiringAdjusters (fst (addWiringCallback (this, sw) x)) =
     addAdjusters (wiringAdjusters this) (wiringAdjusters x)"
  "wiringSuppliedByWiringAdjusters (fst (addWiringCallback (this, sw) x)) =
     addSuppliedWiring_map (wiringSuppliedByWiringAdjusters this) (wiringSuppliedByWiringAdjusters x)"
  "wclass (snd (addWiringCallback (this, sw) x)) = wclass sw"
  "containerAdjusters (snd (addWiringCallback (this, sw) x)) =
     addAdjusters (containerAdjusters sw) (containerAdjusters x)"
  "wiringAdjusters (snd (addWiringCallback (this, sw) x)) = wiringAdjusters sw"
  "wiringSuppliedByWiringAdjusters (snd (addWiringCallback (this, sw) x)) =
     wiringSuppliedByWiringAdjusters sw"
  by (simp_all add: addWiringCallback_def)

lemma sel_synchronise [simp]:
  "wclass (fst (synchronise (this, sw))) = wclass this"
  "containerAdjusters (fst (synchronise (this, sw))) =
     foldl ensureContainerTypeExists (containerAdjusters this) (map fst (containerAdjusters sw))"
  "wiringAdjusters (fst (synchronise (this, sw))) = wiringAdjusters this"
  "wiringSuppliedByWiringAdjusters (fst (synchronise (this, sw))) = wiringSuppliedByWiringAdjusters this"
  "wclass (snd (synchronise (this, sw))) = wclass sw"
  "containerAdjusters (snd (synchronise (this, sw))) =
     foldl ensureContainerTypeExists (containerAdjusters sw)
       (map fst (foldl ensureContainerTypeExists (containerAdjusters this)
          (map fst (containerAdjusters sw))))"
  "wiringAdjusters (snd (synchronise (this, sw))) = wiringAdjusters sw"
  "wiringSuppliedByWiringAdjusters (snd (synchronise (this, sw))) = wiringSuppliedByWiringAdjusters sw"
  by (simp_all add: synchronise_def Let_def)

text \<open>A property of the pair that every call of the callback keeps is kept by the adjuster.\<close>

lemma runWiringAdjuster_invariant:
  assumes "runWiringAdjuster calls state = Inr state'"
    and "Q state"
    and "\<And>st x. Q st \<Longrightarrow> AddWiring x \<in> set calls \<Longrightarrow> Q (addWiringCallback st x)"
  shows "Q state'"
  using assms
proof (induction calls state rule: runWiringAdjuster.induct)
  case (1 state)
  then show ?case by simp
next
  case (2 wiringToAdd calls state)
  have "Q (addWiringCallback state wiringToAdd)" using 2(3,4) by simp
  with 2 show ?case by simp
next
  case (3 calls state)
  then show ?case by simp
next
  case (4 calls state)
  then show ?case by simp
qed

lemma expandWiringAdjuster_InrE:
  assumes "expandWiringAdjuster env a arg this = Inr this'"
  obtains st where
    "runWiringAdjuster (wiringAdjusterCalls env a arg)
       (setSuppliedWiring this a (newWiring 0), newWiring 0) = Inr st"
    "this' = setSuppliedWiring (fst (synchronise st)) a (snd (synchronise st))"
  using assms unfolding expandWiringAdjuster_def
  by (auto split: sum.splits prod.splits)

lemma gather_loop_invariant:
  assumes "gather_loop n env T arg w = Some (Inr (w', calls))"
    and "P w"
    and "\<And>w. P w \<Longrightarrow> P (shiftWiringAdjuster w T)"
    and "\<And>w a w'. P w \<Longrightarrow> expandWiringAdjuster env a arg w = Inr w' \<Longrightarrow> P w'"
  shows "P w'"
  using assms(1,2)
proof (induction n arbitrary: w calls)
  case 0
  then show ?case by simp
next
  case (Suc n)
  show ?case
  proof (cases "map_of (wiringAdjusters w) T")
    case None
    with Suc.prems show ?thesis by simp
  next
    case (Some l)
    show ?thesis
    proof (cases l)
      case Nil
      with Some Suc.prems show ?thesis by simp
    next
      case (Cons a rest)
      show ?thesis
      proof (cases "alreadySupplied w a")
        case True
        with Some Cons Suc.prems have "gather_loop n env T arg (shiftWiringAdjuster w T) = Some (Inr (w', calls))"
          by simp
        moreover have "P (shiftWiringAdjuster w T)" using Suc.prems(2) assms(3) by simp
        ultimately show ?thesis by (rule Suc.IH)
      next
        case False
        with Some Cons Suc.prems obtain w1 calls1 where
          e: "expandWiringAdjuster env a arg (shiftWiringAdjuster w T) = Inr w1"
          and g: "gather_loop n env T arg w1 = Some (Inr (w', calls1))"
          by (auto split: sum.splits option.splits)
        have "P (shiftWiringAdjuster w T)" using Suc.prems(2) assms(3) by simp
        then have "P w1" using e assms(4) by blast
        with g show ?thesis by (rule Suc.IH)
      qed
    qed
  qed
qed

lemma gather_invariant:
  assumes "gatherWiringSuppliedByWiringAdjusters n env w T arg = Some (Inr (w', calls))"
    and "P w"
    and "\<And>w. P w \<Longrightarrow> P (shiftWiringAdjuster w T)"
    and "\<And>w a w'. P w \<Longrightarrow> expandWiringAdjuster env a arg w = Inr w' \<Longrightarrow> P w'"
  shows "P w'"
proof (cases "map_of (wiringAdjusters w) T = None")
  case True
  with assms(1,2) show ?thesis by (simp add: gatherWiringSuppliedByWiringAdjusters_def)
next
  case False
  with assms(1) have "gather_loop n env T arg w = Some (Inr (w', calls))"
    by (simp add: gatherWiringSuppliedByWiringAdjusters_def)
  then show ?thesis using assms(2,3,4) by (rule gather_loop_invariant)
qed

lemma map_of_map_set:
  "map_of (map_set m k v) k' = (if k' = k then Some v else map_of m k')"
proof (cases "map_of m k")
  case None
  then show ?thesis by (auto simp: map_set_def map_add_def split: option.splits)
next
  case (Some v0)
  have "map_of (map (\<lambda>(k', v'). if k' = k then (k', v) else (k', v')) m) k'
      = (if k' = k then map_option (\<lambda>_. v) (map_of m k') else map_of m k')"
    by (induction m) auto
  with Some show ?thesis by (auto simp: map_set_def)
qed

lemma map_of_addSuppliedWiring_map:
  "map_of (addSuppliedWiring_map m src) k =
     (case map_of m k of Some v \<Rightarrow> Some v | None \<Rightarrow> map_of src k)"
  unfolding addSuppliedWiring_map_def
proof (induction src arbitrary: m)
  case Nil
  show ?case by (simp split: option.splits)
next
  case (Cons e src)
  obtain a v where e: "e = (a, v)" by (cases e)
  show ?case
    unfolding e
    by (simp add: Cons.IH map_of_map_set split: option.splits)
qed

lemma alreadySupplied_shift [simp]:
  "alreadySupplied (shiftWiringAdjuster w T) a = alreadySupplied w a"
  by (simp add: alreadySupplied_def)

lemma alreadySupplied_iff:
  "alreadySupplied w a \<longleftrightarrow> (\<exists>sw. map_of (wiringSuppliedByWiringAdjusters w) a = Some (Some sw))"
  by (auto simp: alreadySupplied_def split: option.splits)

lemma ensure_keeps:
  "map_of c k = Some l \<Longrightarrow> map_of (ensureContainerTypeExists c T) k = Some l"
  by (auto simp: map_of_ensureContainerTypeExists)

lemma foldl_ensure_keeps:
  "map_of c k = Some l \<Longrightarrow> map_of (foldl ensureContainerTypeExists c ts) k = Some l"
proof (induction ts arbitrary: c)
  case Nil then show ?case by simp
next
  case (Cons t ts)
  from Cons.IH[OF ensure_keeps[OF Cons.prems]] show ?case by simp
qed

lemma foldl_ensure_known:
  "t \<in> set ts \<Longrightarrow> map_of (foldl ensureContainerTypeExists c ts) t \<noteq> None"
proof (induction ts arbitrary: c)
  case Nil then show ?case by simp
next
  case (Cons x ts)
  show ?case
  proof (cases "t = x")
    case True
    have "map_of (ensureContainerTypeExists c x) x \<noteq> None"
      by (auto simp: map_of_ensureContainerTypeExists)
    then obtain l where "map_of (ensureContainerTypeExists c x) x = Some l" by auto
    from foldl_ensure_keeps[OF this] True show ?thesis by simp
  next
    case False
    with Cons show ?thesis by simp
  qed
qed

lemma set_keys_ensure:
  "set (map fst (ensureContainerTypeExists c T)) = insert T (set (map fst c))"
  by (auto simp: keys_ensureContainerTypeExists map_of_eq_None_iff)

lemma foldl_ensure_keys:
  "set (map fst (foldl ensureContainerTypeExists c ts)) = set (map fst c) \<union> set ts"
proof (induction ts arbitrary: c)
  case Nil then show ?case by simp
next
  case (Cons t ts)
  have "set (map fst (foldl ensureContainerTypeExists (ensureContainerTypeExists c t) ts))
      = set (map fst (ensureContainerTypeExists c t)) \<union> set ts" by (rule Cons.IH)
  then show ?case by (simp only: foldl_Cons set_keys_ensure) auto
qed

lemma foldl_ensure_distinct:
  "distinct (map fst c) \<Longrightarrow> distinct (map fst (foldl ensureContainerTypeExists c ts))"
  by (induction ts arbitrary: c) (auto simp: distinct_keys_ensure)

lemma foldl_ensure_inclusive:
  "inclusive_map (map_of c) \<Longrightarrow> inclusive_map (map_of (foldl ensureContainerTypeExists c ts))"
  by (induction ts arbitrary: c) (auto simp: inclusive_map_ensure)

text \<open>What one call of the callback and one whole adjuster do to \<^verbatim>\<open>this\<close>.\<close>

lemma runWiringAdjuster_this:
  assumes "runWiringAdjuster calls (this, sw) = Inr st"
  shows "wclass (fst st) = wclass this \<and> containerAdjusters (fst st) = containerAdjusters this
    \<and> wclass (snd st) = wclass sw"
proof -
  let ?Q = "\<lambda>st :: wiring \<times> wiring. wclass (fst st) = wclass this
     \<and> containerAdjusters (fst st) = containerAdjusters this \<and> wclass (snd st) = wclass sw"
  have "?Q st"
  proof (rule runWiringAdjuster_invariant[OF assms, where Q = ?Q])
    show "?Q (this, sw)" by simp
  next
    fix st x assume "?Q st"
    then show "?Q (addWiringCallback st x)" by (cases st) simp
  qed
  then show ?thesis .
qed

lemma runWiringAdjuster_supplied_keeps:
  assumes "runWiringAdjuster calls (this, sw) = Inr st"
    and "map_of (wiringSuppliedByWiringAdjusters this) k = Some v"
  shows "map_of (wiringSuppliedByWiringAdjusters (fst st)) k = Some v"
proof -
  let ?Q = "\<lambda>st :: wiring \<times> wiring. map_of (wiringSuppliedByWiringAdjusters (fst st)) k = Some v"
  show ?thesis
  proof (rule runWiringAdjuster_invariant[OF assms(1), where Q = ?Q])
    show "?Q (this, sw)" using assms(2) by simp
  next
    fix st x assume "?Q st"
    then show "?Q (addWiringCallback st x)"
      by (cases st) (simp add: map_of_addSuppliedWiring_map)
  qed
qed

lemma expandWiringAdjuster_facts:
  assumes "expandWiringAdjuster env a arg this = Inr this'"
  shows "wclass this' = wclass this"
    and "alreadySupplied this' a"
    and "\<And>k v. k \<noteq> a \<Longrightarrow> map_of (wiringSuppliedByWiringAdjusters this) k = Some v
           \<Longrightarrow> map_of (wiringSuppliedByWiringAdjusters this') k = Some v"
    and "\<And>k l. map_of (containerAdjusters this) k = Some l
           \<Longrightarrow> map_of (containerAdjusters this') k = Some l"
proof -
  from assms obtain st where
    run: "runWiringAdjuster (wiringAdjusterCalls env a arg)
       (setSuppliedWiring this a (newWiring 0), newWiring 0) = Inr st"
    and this': "this' = setSuppliedWiring (fst (synchronise st)) a (snd (synchronise st))"
    by (rule expandWiringAdjuster_InrE)
  obtain t s where st: "st = (t, s)" by (cases st)
  from runWiringAdjuster_this[OF run] st
  have t: "wclass t = wclass this" "containerAdjusters t = containerAdjusters this" by simp_all
  show "wclass this' = wclass this" using this' st t by simp
  show "alreadySupplied this' a" using this' by (simp add: alreadySupplied_iff map_of_map_set)
  show "map_of (wiringSuppliedByWiringAdjusters this') k = Some v"
    if "k \<noteq> a" "map_of (wiringSuppliedByWiringAdjusters this) k = Some v" for k v
  proof -
    have "map_of (wiringSuppliedByWiringAdjusters (setSuppliedWiring this a (newWiring 0))) k = Some v"
      using that by (simp add: map_of_map_set)
    from runWiringAdjuster_supplied_keeps[OF run this]
    show ?thesis using this' st that(1) by (simp add: map_of_map_set)
  qed
  show "map_of (containerAdjusters this') k = Some l"
    if "map_of (containerAdjusters this) k = Some l" for k l
    using this' st t that by (simp add: foldl_ensure_keeps)
qed

lemma gather_loop_induct [consumes 1, case_names empty skip expand]:
  assumes major: "gather_loop n env T arg w = Some (Inr (w', calls))"
    and empty: "\<And>w. stored (wiringAdjusters w) T = [] \<Longrightarrow> P w w []"
    and skip: "\<And>w a rest w' calls m. map_of (wiringAdjusters w) T = Some (a # rest)
        \<Longrightarrow> alreadySupplied w a
        \<Longrightarrow> gather_loop m env T arg (shiftWiringAdjuster w T) = Some (Inr (w', calls))
        \<Longrightarrow> P (shiftWiringAdjuster w T) w' calls \<Longrightarrow> P w w' calls"
    and expand: "\<And>w a rest w1 w' calls m. map_of (wiringAdjusters w) T = Some (a # rest)
        \<Longrightarrow> \<not> alreadySupplied w a
        \<Longrightarrow> expandWiringAdjuster env a arg (shiftWiringAdjuster w T) = Inr w1
        \<Longrightarrow> gather_loop m env T arg w1 = Some (Inr (w', calls))
        \<Longrightarrow> P w1 w' calls \<Longrightarrow> P w w' (WiringAdjusterCall a arg # calls)"
  shows "P w w' calls"
  using major
proof (induction n arbitrary: w calls)
  case 0
  then show ?case by simp
next
  case (Suc n)
  show ?case
  proof (cases "map_of (wiringAdjusters w) T")
    case None
    with Suc.prems have "w' = w" "calls = []" by simp_all
    moreover have "stored (wiringAdjusters w) T = []" using None by (simp add: stored_def)
    ultimately show ?thesis using empty by simp
  next
    case (Some l)
    show ?thesis
    proof (cases l)
      case Nil
      with Some Suc.prems have "w' = w" "calls = []" by simp_all
      moreover have "stored (wiringAdjusters w) T = []" using Some Nil by (simp add: stored_def)
      ultimately show ?thesis using empty by simp
    next
      case (Cons a rest)
      show ?thesis
      proof (cases "alreadySupplied w a")
        case True
        with Some Cons Suc.prems
        have g0: "gather_loop n env T arg (shiftWiringAdjuster w T) = Some (Inr (w', calls))" by simp
        then have "P (shiftWiringAdjuster w T) w' calls" by (rule Suc.IH)
        moreover have "map_of (wiringAdjusters w) T = Some (a # rest)" using Some Cons by simp
        ultimately show ?thesis using True g0 skip by blast
      next
        case False
        have eq: "(case expandWiringAdjuster env a arg (shiftWiringAdjuster w T) of
            Inl e \<Rightarrow> Some (Inl e)
          | Inr this' \<Rightarrow>
              (case gather_loop n env T arg this' of
                 None \<Rightarrow> None
               | Some (Inl e) \<Rightarrow> Some (Inl e)
               | Some (Inr (final, calls)) \<Rightarrow>
                   Some (Inr (final, WiringAdjusterCall a arg # calls)))) = Some (Inr (w', calls))"
          using Suc.prems Some Cons False by simp
        show ?thesis
        proof (cases "expandWiringAdjuster env a arg (shiftWiringAdjuster w T)")
          case (Inl e)
          with eq show ?thesis by simp
        next
          case (Inr w1)
          show ?thesis
          proof (cases "gather_loop n env T arg w1")
            case None
            with eq Inr show ?thesis by simp
          next
            case (Some r)
            show ?thesis
            proof (cases r)
              case (Inl e)
              with eq Inr Some show ?thesis by simp
            next
              case r: (Inr p)
              obtain wf calls1 where p: "p = (wf, calls1)" by (cases p)
              from eq Inr Some r p have c: "w' = wf" "calls = WiringAdjusterCall a arg # calls1"
                by simp_all
              have g: "gather_loop n env T arg w1 = Some (Inr (w', calls1))"
                using Some r p c by simp
              then have "P w1 w' calls1" by (rule Suc.IH)
              moreover have "map_of (wiringAdjusters w) T = Some (a # rest)"
                using \<open>map_of (wiringAdjusters w) T = Some l\<close> Cons by simp
              ultimately show ?thesis unfolding c(2) using False Inr g expand by blast
            qed
          qed
        qed
      qed
    qed
  qed
qed

lemma gather_loop_fuel_mono:
  "gather_loop n env T arg w = Some r \<Longrightarrow> gather_loop (n + k) env T arg w = Some r"
proof (induction n arbitrary: w r)
  case 0
  then show ?case by simp
next
  case (Suc n)
  show ?case
  proof (cases "map_of (wiringAdjusters w) T")
    case None
    with Suc.prems show ?thesis by simp
  next
    case (Some l)
    show ?thesis
    proof (cases l)
      case Nil
      with Some Suc.prems show ?thesis by simp
    next
      case (Cons a rest)
      show ?thesis
      proof (cases "alreadySupplied w a")
        case True
        with Some Cons Suc.prems
        have "gather_loop n env T arg (shiftWiringAdjuster w T) = Some r" by simp
        from Suc.IH[OF this] Some Cons True show ?thesis by simp
      next
        case False
        show ?thesis
        proof (cases "expandWiringAdjuster env a arg (shiftWiringAdjuster w T)")
          case (Inl e)
          with Some Cons False Suc.prems show ?thesis by simp
        next
          case (Inr w1)
          with Some Cons False Suc.prems obtain r1 where
            g: "gather_loop n env T arg w1 = Some r1"
            by (auto split: option.splits)
          from Suc.IH[OF g] g Some Cons False Inr Suc.prems show ?thesis by simp
        qed
      qed
    qed
  qed
qed

lemma gather_loop_class:
  assumes "gather_loop n env T arg w = Some (Inr (w', calls))"
  shows "wclass w' = wclass w"
  using assms
proof (induction rule: gather_loop_induct)
  case (empty w) show ?case by simp
next
  case (skip w a rest w' calls m) then show ?case by simp
next
  case (expand w a rest w1 w' calls m)
  with expandWiringAdjuster_facts(1)[OF expand(3)] show ?case by simp
qed

lemma gather_loop_containerAdjusters_keep:
  assumes "gather_loop n env T arg w = Some (Inr (w', calls))"
    and "map_of (containerAdjusters w) k = Some l"
  shows "map_of (containerAdjusters w') k = Some l"
  using assms
proof (induction rule: gather_loop_induct)
  case (empty w) then show ?case by simp
next
  case (skip w a rest w' calls m) then show ?case by simp
next
  case (expand w a rest w1 w' calls m)
  have "map_of (containerAdjusters (shiftWiringAdjuster w T)) k = Some l" using expand(6) by simp
  from expandWiringAdjuster_facts(4)[OF expand(3) this] expand(5) show ?case by simp
qed

lemma gather_loop_supplied_keep:
  assumes "gather_loop n env T arg w = Some (Inr (w', calls))"
    and "map_of (wiringSuppliedByWiringAdjusters w) k = Some (Some sw)"
  shows "map_of (wiringSuppliedByWiringAdjusters w') k = Some (Some sw)"
  using assms
proof (induction rule: gather_loop_induct)
  case (empty w) then show ?case by simp
next
  case (skip w a rest w' calls m) then show ?case by simp
next
  case (expand w a rest w1 w' calls m)
  have "k \<noteq> a" using expand(2,6) by (auto simp: alreadySupplied_iff)
  moreover have "map_of (wiringSuppliedByWiringAdjusters (shiftWiringAdjuster w T)) k = Some (Some sw)"
    using expand(6) by simp
  ultimately have "map_of (wiringSuppliedByWiringAdjusters w1) k = Some (Some sw)"
    using expandWiringAdjuster_facts(3)[OF expand(3)] by blast
  then show ?case by (rule expand(5))
qed

lemma gather_loop_supplied_keys:
  assumes "gather_loop n env T arg w = Some (Inr (w', calls))"
    and "map_of (wiringSuppliedByWiringAdjusters w) k \<noteq> None"
  shows "map_of (wiringSuppliedByWiringAdjusters w') k \<noteq> None"
  using assms
proof (induction rule: gather_loop_induct)
  case (empty w) then show ?case by simp
next
  case (skip w a rest w' calls m) then show ?case by simp
next
  case (expand w a rest w1 w' calls m)
  have "map_of (wiringSuppliedByWiringAdjusters w1) k \<noteq> None"
  proof (cases "k = a")
    case True
    with expandWiringAdjuster_facts(2)[OF expand(3)] show ?thesis
      by (auto simp: alreadySupplied_iff)
  next
    case False
    from expand(6) obtain v where "map_of (wiringSuppliedByWiringAdjusters (shiftWiringAdjuster w T)) k = Some v"
      by auto
    from expandWiringAdjuster_facts(3)[OF expand(3) False this] show ?thesis by simp
  qed
  then show ?case by (rule expand(5))
qed

lemma alreadySupplied_gather_loop:
  assumes "gather_loop n env T arg w = Some (Inr (w', calls))" and "alreadySupplied w a"
  shows "alreadySupplied w' a"
  using assms gather_loop_supplied_keep unfolding alreadySupplied_iff by blast

lemma gather_loop_calls:
  assumes "gather_loop n env T arg w = Some (Inr (w', calls))"
  shows "distinct calls
    \<and> (\<forall>x \<in> set calls. \<exists>a. x = WiringAdjusterCall a arg \<and> \<not> alreadySupplied w a \<and> alreadySupplied w' a)"
  using assms
proof (induction rule: gather_loop_induct)
  case (empty w) show ?case by simp
next
  case (skip w a rest w' calls m) then show ?case by simp
next
  case (expand w a rest w1 w' calls m)
  have a1: "alreadySupplied w1 a" using expandWiringAdjuster_facts(2)[OF expand(3)] .
  have before: "\<not> alreadySupplied w b" if "\<not> alreadySupplied w1 b" for b
  proof
    assume "alreadySupplied w b"
    then obtain sw where sw: "map_of (wiringSuppliedByWiringAdjusters (shiftWiringAdjuster w T)) b = Some (Some sw)"
      by (auto simp: alreadySupplied_iff)
    have "b \<noteq> a" using that a1 by auto
    from expandWiringAdjuster_facts(3)[OF expand(3) this sw] that show False
      by (simp add: alreadySupplied_iff)
  qed
  have ih: "distinct calls" "\<And>x. x \<in> set calls \<Longrightarrow>
      \<exists>b. x = WiringAdjusterCall b arg \<and> \<not> alreadySupplied w1 b \<and> alreadySupplied w' b"
    using expand(5) by auto
  have fresh: "WiringAdjusterCall a arg \<notin> set calls"
  proof
    assume "WiringAdjusterCall a arg \<in> set calls"
    from ih(2)[OF this] a1 show False by auto
  qed
  have end_a: "alreadySupplied w' a" using expand(4) a1 by (rule alreadySupplied_gather_loop)
  have "\<exists>b. x = WiringAdjusterCall b arg \<and> \<not> alreadySupplied w b \<and> alreadySupplied w' b"
    if "x \<in> set (WiringAdjusterCall a arg # calls)" for x
  proof (cases "x = WiringAdjusterCall a arg")
    case True
    with expand(2) end_a show ?thesis by auto
  next
    case False
    with that have "x \<in> set calls" by simp
    from ih(2)[OF this] before show ?thesis by blast
  qed
  with ih(1) fresh show ?case by auto
qed

lemma adjusters_of_map_of: "map_of c k = Some l \<Longrightarrow> set l \<subseteq> adjusters_of c"
  unfolding adjusters_of_def by (auto dest: map_of_SomeD)

lemma adjusters_of_ensure: "adjusters_of (ensureContainerTypeExists c T) \<subseteq> adjusters_of c"
proof (cases "map_of c T")
  case (Some l)
  then show ?thesis by (simp add: ensureContainerTypeExists_def)
next
  case None
  have "set (getAncestorAdjusters c T) \<subseteq> adjusters_of c"
    using getAncestorAdjusters_cases[where c = c and T = T, OF refl] adjusters_of_map_of by fastforce
  with None show ?thesis by (auto simp: ensureContainerTypeExists_def adjusters_of_def)
qed

lemma adjusters_of_map_values:
  assumes "\<And>k l. set (f k l) \<subseteq> set l \<union> X"
  shows "adjusters_of (map (\<lambda>(k, l). (k, f k l)) c) \<subseteq> adjusters_of c \<union> X"
  using assms unfolding adjusters_of_def by fastforce

lemma adjusters_of_pushAdjustersAt:
  "adjusters_of (pushAdjustersAt c T xs) \<subseteq> adjusters_of c \<union> set xs"
  unfolding pushAdjustersAt_alt by (rule adjusters_of_map_values) auto

lemma adjusters_of_pushUnknown:
  "adjusters_of (pushAdjustersIntoUnknownDescendants c T xs r) \<subseteq> adjusters_of c \<union> set xs"
  unfolding pushAdjustersIntoUnknownDescendants_alt by (rule adjusters_of_map_values) auto

lemma set_tl_subset: "set (tl l) \<subseteq> set l"
  by (cases l) auto

lemma adjusters_of_shiftAt: "adjusters_of (shiftAt c T) \<subseteq> adjusters_of c"
proof -
  have "adjusters_of (shiftAt c T) \<subseteq> adjusters_of c \<union> {}"
    unfolding shiftAt_alt by (rule adjusters_of_map_values) (simp add: set_tl_subset)
  then show ?thesis by simp
qed

lemma adjusters_of_step:
  "adjusters_of (addAdjusters_step src d (T, L)) \<subseteq> adjusters_of d \<union> set L"
  unfolding addAdjusters_step_def prod.case
  using adjusters_of_pushUnknown adjusters_of_pushAdjustersAt adjusters_of_ensure
  by (meson Un_mono order_refl subset_trans sup.boundedI sup_ge2)

lemma adjusters_of_fold:
  "adjusters_of (foldl (addAdjusters_step src) d rem) \<subseteq> adjusters_of d \<union> adjusters_of rem"
proof (induction rem arbitrary: d)
  case Nil then show ?case by simp
next
  case (Cons e rem)
  obtain T L where e: "e = (T, L)" by (cases e)
  have "adjusters_of (foldl (addAdjusters_step src) (addAdjusters_step src d (T, L)) rem)
      \<subseteq> adjusters_of (addAdjusters_step src d (T, L)) \<union> adjusters_of rem" by (rule Cons.IH)
  also have "\<dots> \<subseteq> (adjusters_of d \<union> set L) \<union> adjusters_of rem"
    using adjusters_of_step by blast
  also have "\<dots> = adjusters_of d \<union> adjusters_of (e # rem)"
    unfolding e adjusters_of_def by auto
  finally show ?case unfolding e by simp
qed

lemma adjusters_of_addAdjusters:
  "adjusters_of (addAdjusters d src) \<subseteq> adjusters_of d \<union> adjusters_of src"
  unfolding addAdjusters_def by (rule adjusters_of_fold)

lemma expandWiringAdjuster_pending:
  assumes "expandWiringAdjuster env a arg this = Inr this'"
    and "supplies_within env S" and "pending_adjusters this \<subseteq> S"
  shows "pending_adjusters this' \<subseteq> S"
proof -
  from assms(1) obtain st where
    run: "runWiringAdjuster (wiringAdjusterCalls env a arg)
       (setSuppliedWiring this a (newWiring 0), newWiring 0) = Inr st"
    and this': "this' = setSuppliedWiring (fst (synchronise st)) a (snd (synchronise st))"
    by (rule expandWiringAdjuster_InrE)
  let ?Q = "\<lambda>st :: wiring \<times> wiring. pending_adjusters (fst st) \<subseteq> S"
  have "?Q st"
  proof (rule runWiringAdjuster_invariant[OF run, where Q = ?Q])
    show "?Q (setSuppliedWiring this a (newWiring 0), newWiring 0)"
      using assms(3) by (simp add: pending_adjusters_def)
  next
    fix st :: "wiring \<times> wiring" and x
    assume q: "?Q st" and x: "AddWiring x \<in> set (wiringAdjusterCalls env a arg)"
    obtain t s where st: "st = (t, s)" by (cases st)
    have "pending_adjusters x \<subseteq> S" using assms(2) x unfolding supplies_within_def by blast
    with q st adjusters_of_addAdjusters[of "wiringAdjusters t" "wiringAdjusters x"]
    show "?Q (addWiringCallback st x)" by (auto simp: pending_adjusters_def)
  qed
  then show ?thesis using this' by (cases st) (simp add: pending_adjusters_def)
qed

lemma gather_loop_terminates:
  assumes fin: "finite S" and env: "supplies_within env S"
  shows "pending_adjusters w \<subseteq> S \<Longrightarrow> \<exists>n. gather_loop n env T arg w \<noteq> None"
proof (induction w rule: wf_induct_rule[OF wf_measures[of
      "[\<lambda>w. card {a \<in> S. \<not> alreadySupplied w a}, \<lambda>w. length (stored (wiringAdjusters w) T)]"]])
  case (1 w)
  show ?case
  proof (cases "map_of (wiringAdjusters w) T")
    case None
    then have "gather_loop (Suc 0) env T arg w \<noteq> None" by simp
    then show ?thesis by blast
  next
    case (Some l)
    show ?thesis
    proof (cases l)
      case Nil
      with Some have "gather_loop (Suc 0) env T arg w \<noteq> None" by simp
      then show ?thesis by blast
    next
      case (Cons a rest)
      have m: "map_of (wiringAdjusters w) T = Some (a # rest)" using Some Cons by simp
      let ?s = "shiftWiringAdjuster w T"
      have ps: "pending_adjusters ?s \<subseteq> S"
        using "1.prems" adjusters_of_shiftAt[of "wiringAdjusters w" T]
        by (auto simp: pending_adjusters_def)
      have len: "length (stored (wiringAdjusters ?s) T) < length (stored (wiringAdjusters w) T)"
        using m by (simp add: stored_def map_of_shiftAt)
      show ?thesis
      proof (cases "alreadySupplied w a")
        case True
        have "(?s, w) \<in> measures [\<lambda>w. card {a \<in> S. \<not> alreadySupplied w a},
            \<lambda>w. length (stored (wiringAdjusters w) T)]"
          using len by simp
        from "1.IH"[OF this ps] obtain n where "gather_loop n env T arg ?s \<noteq> None" by blast
        with m True have "gather_loop (Suc n) env T arg w \<noteq> None" by simp
        then show ?thesis by blast
      next
        case False
        show ?thesis
        proof (cases "expandWiringAdjuster env a arg ?s")
          case (Inl e)
          with m False have "gather_loop (Suc 0) env T arg w \<noteq> None" by simp
          then show ?thesis by blast
        next
          case (Inr w1)
          have a_in: "a \<in> S" using "1.prems" adjusters_of_map_of[OF m]
            by (auto simp: pending_adjusters_def)
          have sub: "{b \<in> S. \<not> alreadySupplied w1 b} \<subseteq> {b \<in> S. \<not> alreadySupplied w b}"
          proof
            fix b assume b: "b \<in> {b \<in> S. \<not> alreadySupplied w1 b}"
            have "\<not> alreadySupplied w b"
            proof
              assume "alreadySupplied w b"
              then obtain sw where sw: "map_of (wiringSuppliedByWiringAdjusters ?s) b = Some (Some sw)"
                by (auto simp: alreadySupplied_iff)
              have "b \<noteq> a" using b expandWiringAdjuster_facts(2)[OF Inr] by auto
              from expandWiringAdjuster_facts(3)[OF Inr this sw] b show False
                by (simp add: alreadySupplied_iff)
            qed
            with b show "b \<in> {b \<in> S. \<not> alreadySupplied w b}" by simp
          qed
          have "a \<in> {b \<in> S. \<not> alreadySupplied w b}" using a_in False by simp
          moreover have "a \<notin> {b \<in> S. \<not> alreadySupplied w1 b}"
            using expandWiringAdjuster_facts(2)[OF Inr] by simp
          ultimately have "{b \<in> S. \<not> alreadySupplied w1 b} \<subset> {b \<in> S. \<not> alreadySupplied w b}"
            using sub by blast
          then have "card {b \<in> S. \<not> alreadySupplied w1 b} < card {b \<in> S. \<not> alreadySupplied w b}"
            using fin by (intro psubset_card_mono) auto
          then have "(w1, w) \<in> measures [\<lambda>w. card {a \<in> S. \<not> alreadySupplied w a},
            \<lambda>w. length (stored (wiringAdjusters w) T)]"
            by simp
          moreover have "pending_adjusters w1 \<subseteq> S"
            using Inr env ps by (rule expandWiringAdjuster_pending)
          ultimately obtain n where n: "gather_loop n env T arg w1 \<noteq> None"
            using "1.IH" by blast
          then obtain r where "gather_loop n env T arg w1 = Some r" by auto
          with m False Inr have "gather_loop (Suc n) env T arg w \<noteq> None"
            by (cases r) (auto split: prod.splits)
          then show ?thesis by blast
        qed
      qed
    qed
  qed
qed

lemma gather_cases:
  assumes "gatherWiringSuppliedByWiringAdjusters n env w T arg = Some (Inr (w', calls))"
  obtains "w' = w" "calls = []" | "gather_loop n env T arg w = Some (Inr (w', calls))"
proof (cases "map_of (wiringAdjusters w) T = None")
  case True
  with assms have "w' = w" "calls = []"
    by (simp_all add: gatherWiringSuppliedByWiringAdjusters_def)
  then show ?thesis by (rule that(1))
next
  case False
  with assms have "gather_loop n env T arg w = Some (Inr (w', calls))"
    by (simp add: gatherWiringSuppliedByWiringAdjusters_def)
  then show ?thesis by (rule that(2))
qed

lemma gather_calls:
  assumes "gatherWiringSuppliedByWiringAdjusters n env w T arg = Some (Inr (w', calls))"
  shows "distinct calls"
    and "\<And>x. x \<in> set calls \<Longrightarrow>
      \<exists>a. x = WiringAdjusterCall a arg \<and> \<not> alreadySupplied w a \<and> alreadySupplied w' a"
    and "\<And>a. alreadySupplied w a \<Longrightarrow> alreadySupplied w' a"
proof -
  show "distinct calls"
    using assms
  proof (cases rule: gather_cases)
    case 1 then show ?thesis by simp
  next
    case 2 from gather_loop_calls[OF 2] show ?thesis by simp
  qed
  show "\<exists>a. x = WiringAdjusterCall a arg \<and> \<not> alreadySupplied w a \<and> alreadySupplied w' a"
    if "x \<in> set calls" for x
    using assms
  proof (cases rule: gather_cases)
    case 1 with that show ?thesis by simp
  next
    case 2 from gather_loop_calls[OF 2] that show ?thesis by simp
  qed
  show "alreadySupplied w' a" if "alreadySupplied w a" for a
    using assms
  proof (cases rule: gather_cases)
    case 1 with that show ?thesis by simp
  next
    case 2 from alreadySupplied_gather_loop[OF 2 that] show ?thesis .
  qed
qed

lemma gather_terminates:
  assumes "finite S" "supplies_within env S" "pending_adjusters w \<subseteq> S"
  shows "\<exists>n r. \<forall>m \<ge> n. gatherWiringSuppliedByWiringAdjusters m env w T arg = Some r"
proof (cases "map_of (wiringAdjusters w) T = None")
  case True
  then show ?thesis by (simp add: gatherWiringSuppliedByWiringAdjusters_def)
next
  case False
  from gather_loop_terminates[OF assms] obtain n r where n: "gather_loop n env T arg w = Some r"
    by blast
  have "gatherWiringSuppliedByWiringAdjusters m env w T arg = Some r" if "n \<le> m" for m
  proof -
    from that obtain k where "m = n + k" using le_Suc_ex by blast
    with gather_loop_fuel_mono[OF n, of k] False show ?thesis
      by (auto simp: gatherWiringSuppliedByWiringAdjusters_def)
  qed
  then show ?thesis by blast
qed

subsection \<open>Facts about container creation\<close>

lemma priv_createContainer_InrE:
  assumes "priv_createContainer fuel env this T args = Some (Inr (c, calls))"
  obtains this1 base flattened after where
    "gatherWiringSuppliedByWiringAdjusters fuel env this '''' NoContext = Some (Inr (this1, base))"
    "map_of (containerAdjusters this1) (''.'' @ T) \<noteq> None"
    "getFlattenedContainerAdjusters fuel this1 (containerAdjusters this1) (''.'' @ T)
       = Some (Inr flattened)"
    "applyContainerAdjusters env T args flattened [] = Inr (applied c)"
    "gatherWiringSuppliedByWiringAdjusters fuel env this1 T (Created T (applied c))
       = Some (Inr (wiringBean c, after))"
    "ctype c = T"
    "calls = base @ RegisterWiringBean
       # map (\<lambda>(a, args). ContainerAdjusterCall a args) (applied c) @ after"
proof -
  from assms obtain this1 base where
    g1: "gatherWiringSuppliedByWiringAdjusters fuel env this '''' NoContext = Some (Inr (this1, base))"
    unfolding priv_createContainer_def
    by (cases "gatherWiringSuppliedByWiringAdjusters fuel env this '''' NoContext")
       (auto split: sum.splits)
  note r1 = assms[unfolded priv_createContainer_def g1, simplified]
  have known: "map_of (containerAdjusters this1) (''.'' @ T) \<noteq> None"
    using r1 by (auto split: if_splits)
  from r1 known obtain flattened where
    fl: "getFlattenedContainerAdjusters fuel this1 (containerAdjusters this1) (''.'' @ T)
       = Some (Inr flattened)"
    by (cases "getFlattenedContainerAdjusters fuel this1 (containerAdjusters this1) (''.'' @ T)")
       (auto split: sum.splits)
  from r1 known fl obtain ap where
    ap: "applyContainerAdjusters env T args flattened [] = Inr ap"
    by (cases "applyContainerAdjusters env T args flattened []") auto
  from r1 known fl ap obtain this2 after where
    g2: "gatherWiringSuppliedByWiringAdjusters fuel env this1 T (Created T ap)
       = Some (Inr (this2, after))"
    by (cases "gatherWiringSuppliedByWiringAdjusters fuel env this1 T (Created T ap)")
       (auto split: sum.splits)
  from r1 known fl ap g2 have c: "c = \<lparr>ctype = T, wiringBean = this2, applied = ap\<rparr>"
    and calls: "calls = base @ RegisterWiringBean
       # map (\<lambda>(a, args). ContainerAdjusterCall a args) ap @ after"
    by auto
  show ?thesis
    using that[of this1 base flattened after] g1 known fl ap g2 c calls by simp
qed

lemma gather_class:
  assumes "gatherWiringSuppliedByWiringAdjusters n env w T arg = Some (Inr (w', calls))"
  shows "wclass w' = wclass w"
  using assms
proof (cases rule: gather_cases)
  case 1 then show ?thesis by simp
next
  case 2 then show ?thesis by (rule gather_loop_class)
qed

lemma gather_calls_form:
  assumes "gatherWiringSuppliedByWiringAdjusters n env w T arg = Some (Inr (w', calls))"
    and "x \<in> set calls"
  shows "\<exists>a. x = WiringAdjusterCall a arg"
  using gather_calls(2)[OF assms] by blast

lemma priv_createContainer_bean:
  assumes "priv_createContainer fuel env this T args = Some (Inr (c, calls))"
  shows "wclass (wiringBean c) = wclass this \<and> ctype c = T
    \<and> (\<exists>this1 base after.
          gatherWiringSuppliedByWiringAdjusters fuel env this '''' NoContext
            = Some (Inr (this1, base))
        \<and> gatherWiringSuppliedByWiringAdjusters fuel env this1 T (Created T (applied c))
            = Some (Inr (wiringBean c, after))
        \<and> calls = base @ RegisterWiringBean
            # map (\<lambda>(a, args). ContainerAdjusterCall a args) (applied c) @ after
        \<and> (\<forall>x \<in> set base. \<exists>a. x = WiringAdjusterCall a NoContext)
        \<and> (\<forall>x \<in> set after. \<exists>a. x = WiringAdjusterCall a (Created T (applied c))))"
  using assms
proof (cases rule: priv_createContainer_InrE)
  case (1 this1 base flattened after)
  have "wclass (wiringBean c) = wclass this"
    using gather_class[OF 1(1)] gather_class[OF 1(5)] by simp
  moreover have "\<forall>x \<in> set base. \<exists>a. x = WiringAdjusterCall a NoContext"
    using gather_calls_form[OF 1(1)] by blast
  moreover have "\<forall>x \<in> set after. \<exists>a. x = WiringAdjusterCall a (Created T (applied c))"
    using gather_calls_form[OF 1(5)] by blast
  ultimately show ?thesis using 1 by blast
qed

lemma class_builder_ops:
  "wclass (priv_adjustContainer b T f) = wclass b"
  "wclass (priv_adjustWiringAfter b T f) = wclass b"
  "wclass (priv_adjustBaseWiring b f) = wclass b"
  "wclass (priv_addWiring b w) = wclass b"
  by (simp_all add: priv_adjustContainer_def priv_adjustWiringAfter_def
      priv_adjustBaseWiring_def priv_addWiring_def)

lemma run_ops_class:
  "run_op op b = Inr b' \<Longrightarrow> wclass b' = wclass b"
  "run_ops ops b = Inr b' \<Longrightarrow> wclass b' = wclass b"
proof (induction op b and ops b arbitrary: b' and b' rule: run_op_run_ops.induct)
  case (1 containerType containerAdjuster builder)
  then show ?case by (auto simp: adjustContainer_def class_builder_ops split: if_splits)
next
  case (2 wiringAdjuster builder)
  then show ?case by (auto simp: adjustBaseWiring_def class_builder_ops)
next
  case (3 containerType wiringAdjuster builder)
  then show ?case by (auto simp: adjustWiringAfter_def class_builder_ops split: if_splits)
next
  case (4 ops builder)
  then show ?case by (auto simp: addWiring_def class_builder_ops split: sum.splits)
next
  case (5 builder)
  then show ?case by simp
next
  case (6 op ops builder)
  then show ?case by (auto split: sum.splits)
qed

subsection \<open>Facts about complete lists\<close>

lemma complete_collection_ensure:
  assumes "distinct (map fst c)" "ancestor_inclusive c"
  shows "distinct (map fst (ensureContainerTypeExists c T))
    \<and> ancestor_inclusive (ensureContainerTypeExists c T)"
  using assms ancestor_inclusive_iff distinct_keys_ensure inclusive_map_ensure by blast

lemma complete_collection_addAdjuster:
  assumes "distinct (map fst c)" "ancestor_inclusive c"
  shows "distinct (map fst (addAdjuster c T f)) \<and> ancestor_inclusive (addAdjuster c T f)"
  using assms ancestor_inclusive_iff distinct_keys_addAdjuster inclusive_map_addAdjuster by blast

lemma complete_collection_addAdjusters:
  assumes "distinct (map fst c)" "ancestor_inclusive c"
    and "distinct (map fst src)" "ancestor_inclusive src"
  shows "distinct (map fst (addAdjusters c src)) \<and> ancestor_inclusive (addAdjusters c src)"
  using assms ancestor_inclusive_iff distinct_keys_addAdjusters inclusive_map_addAdjusters
  by blast

lemma complete_collection_foldl_ensure:
  assumes "distinct (map fst c)" "ancestor_inclusive c"
  shows "distinct (map fst (foldl ensureContainerTypeExists c ts))
    \<and> ancestor_inclusive (foldl ensureContainerTypeExists c ts)"
  using assms ancestor_inclusive_iff foldl_ensure_distinct foldl_ensure_inclusive by blast

lemma complete_new [simp]: "stored_lists_complete (newWiring cls)"
  by (simp add: stored_lists_complete_def ancestor_inclusive_def)

lemma complete_adjustContainer:
  "stored_lists_complete w \<Longrightarrow> stored_lists_complete (priv_adjustContainer w T f)"
  unfolding stored_lists_complete_def priv_adjustContainer_def
  using complete_collection_addAdjuster by simp

lemma complete_adjustWiringAfter:
  "stored_lists_complete w \<Longrightarrow> stored_lists_complete (priv_adjustWiringAfter w T f)"
  unfolding stored_lists_complete_def priv_adjustWiringAfter_def
  using complete_collection_addAdjuster complete_collection_ensure by simp

lemma complete_addWiring:
  "stored_lists_complete w \<Longrightarrow> stored_lists_complete other
    \<Longrightarrow> stored_lists_complete (priv_addWiring w other)"
  unfolding stored_lists_complete_def priv_addWiring_def
  using complete_collection_addAdjusters by simp

lemma complete_expand:
  assumes "expandWiringAdjuster env a arg this = Inr this'" "stored_lists_complete this"
  shows "stored_lists_complete this'"
proof -
  from assms(1) obtain st where
    run: "runWiringAdjuster (wiringAdjusterCalls env a arg)
       (setSuppliedWiring this a (newWiring 0), newWiring 0) = Inr st"
    and this': "this' = setSuppliedWiring (fst (synchronise st)) a (snd (synchronise st))"
    by (rule expandWiringAdjuster_InrE)
  obtain t s where st: "st = (t, s)" by (cases st)
  from runWiringAdjuster_this[OF run] st
  have "containerAdjusters t = containerAdjusters this" by simp
  then show ?thesis
    using assms(2) this' st complete_collection_foldl_ensure
    by (simp add: stored_lists_complete_def)
qed

lemma complete_gather:
  assumes "gatherWiringSuppliedByWiringAdjusters n env w T arg = Some (Inr (w', calls))"
    and "stored_lists_complete w"
  shows "stored_lists_complete w'"
  using assms(1,2)
proof (rule gather_invariant)
  fix w assume "stored_lists_complete w"
  then show "stored_lists_complete (shiftWiringAdjuster w T)"
    by (simp add: stored_lists_complete_def)
next
  fix w a w'
  assume "stored_lists_complete w" "expandWiringAdjuster env a arg w = Inr w'"
  then show "stored_lists_complete w'" using complete_expand by blast
qed

lemma definition_phase_complete:
  "definition_phase w \<Longrightarrow> stored_lists_complete w"
proof (induction rule: definition_phase.induct)
  case new_builder
  show ?case by (simp add: WiringBuilder_new_def)
next
  case (new_subclass cls)
  show ?case by (simp add: WiringBuilder_new_def)
next
  case (import_wiring other)
  then show ?case by (simp add: WiringBuilder_new_def build_def)
next
  case (after_adjustBaseWiring builder wiringAdjuster builder')
  then show ?case
    by (auto simp: adjustBaseWiring_def priv_adjustBaseWiring_def complete_adjustWiringAfter)
next
  case (after_adjustContainer builder containerType containerAdjuster builder')
  then show ?case
    by (auto simp: adjustContainer_def complete_adjustContainer split: if_splits)
next
  case (after_adjustWiringAfter builder containerType wiringAdjuster builder')
  then show ?case
    by (auto simp: adjustWiringAfter_def complete_adjustWiringAfter split: if_splits)
next
  case (after_addWiring builder other builder')
  then show ?case
    by (auto simp: addWiring_def build_def complete_addWiring)
qed

subsection \<open>Facts about merging collections\<close>

lemma addAdjusters_fold_keys:
  "set (map fst (foldl (addAdjusters_step src) d rem)) = set (map fst d) \<union> fst ` set rem"
proof (induction rem arbitrary: d)
  case Nil then show ?case by simp
next
  case (Cons e rem)
  obtain T L where e: "e = (T, L)" by (cases e)
  have "set (map fst (addAdjusters_step src d (T, L))) = insert T (set (map fst d))"
    by (auto simp: keys_addAdjusters_step map_of_eq_None_iff)
  with Cons.IH[of "addAdjusters_step src d (T, L)"] show ?case unfolding e by auto
qed

lemma addAdjusters_fold_grows:
  "map_of d X = Some l \<Longrightarrow> \<exists>suf. map_of (foldl (addAdjusters_step src) d rem) X = Some (l @ suf)"
proof (induction rem arbitrary: d l)
  case Nil then show ?case by simp
next
  case (Cons e rem)
  obtain T L where e: "e = (T, L)" by (cases e)
  from addAdjusters_step_grows[OF Cons.prems, of src T L] obtain l' where
    "map_of (addAdjusters_step src d (T, L)) X = Some (l @ l')" by blast
  from Cons.IH[OF this] show ?case unfolding e by auto
qed

lemma addAdjusters_fold_untouched:
  assumes "X \<notin> fst ` set rem" "map_of src X \<noteq> None"
  shows "map_of (foldl (addAdjusters_step src) d rem) X = map_of d X"
  using assms(1)
proof (induction rem arbitrary: d)
  case Nil then show ?case by simp
next
  case (Cons e rem)
  obtain T L where e: "e = (T, L)" by (cases e)
  have "map_of (addAdjusters_step src d (T, L)) X = map_of d X"
    using Cons.prems assms(2) e by (auto simp: map_of_addAdjusters_step)
  with Cons.IH[of "addAdjusters_step src d (T, L)"] Cons.prems show ?case unfolding e by simp
qed

lemma addAdjusters_fold_source:
  assumes "distinct (map fst rem)" "(T, l) \<in> set rem" "map_of src T \<noteq> None"
  shows "\<exists>pre. map_of (foldl (addAdjusters_step src) d rem) T = Some (pre @ l)
           \<and> (\<forall>l0. map_of d T = Some l0 \<longrightarrow> pre = l0)
           \<and> (map_of d T = None \<longrightarrow> pre = []
                \<or> (\<exists>A lA. is_ancestor A T
                      \<and> map_of (foldl (addAdjusters_step src) d rem) A = Some lA
                      \<and> prefix pre lA))"
  using assms(1,2)
proof (induction rem arbitrary: d)
  case Nil then show ?case by simp
next
  case (Cons e rem)
  obtain T' L where e: "e = (T', L)" by (cases e)
  show ?case
  proof (cases "T' = T")
    case True
    with Cons.prems e have L: "L = l" and notin: "T \<notin> fst ` set rem" by force+
    define pre where "pre = (case map_of d T of Some l \<Rightarrow> l | None \<Rightarrow> getAncestorAdjusters d T)"
    let ?d1 = "addAdjusters_step src d (T, l)"
    let ?fin = "foldl (addAdjusters_step src) d (e # rem)"
    have fin: "?fin = foldl (addAdjusters_step src) ?d1 rem" unfolding e using True L by simp
    have "map_of ?d1 T = Some (pre @ l)"
      by (simp add: map_of_addAdjusters_step pre_def)
    with addAdjusters_fold_untouched[OF notin assms(3), of ?d1]
    have 1: "map_of ?fin T = Some (pre @ l)" unfolding fin by simp
    have 2: "\<forall>l0. map_of d T = Some l0 \<longrightarrow> pre = l0" by (simp add: pre_def)
    have 3: "pre = [] \<or> (\<exists>A lA. is_ancestor A T \<and> map_of ?fin A = Some lA \<and> prefix pre lA)"
      if none: "map_of d T = None"
    proof -
      from none have g: "getAncestorAdjusters d T = pre" by (simp add: pre_def)
      from getAncestorAdjusters_cases[OF g] show ?thesis
      proof
        assume "\<exists>N. is_ancestor N T \<and> map_of d N = Some pre
          \<and> (\<forall>A. is_ancestor A T \<and> map_of d A \<noteq> None \<longrightarrow> A = N \<or> is_ancestor A N)"
        then obtain N where N: "is_ancestor N T" "map_of d N = Some pre" by blast
        from addAdjusters_step_grows[OF N(2), of src T l] obtain l1 where
          "map_of ?d1 N = Some (pre @ l1)" by blast
        from addAdjusters_fold_grows[OF this, of src rem] obtain suf where
          "map_of ?fin N = Some ((pre @ l1) @ suf)" unfolding fin by blast
        then have "map_of ?fin N = Some (pre @ l1 @ suf) \<and> prefix pre (pre @ l1 @ suf)" by simp
        with N(1) show ?thesis by blast
      next
        assume "pre = [] \<and> (\<forall>A. is_ancestor A T \<longrightarrow> map_of d A = None)"
        then show ?thesis by simp
      qed
    qed
    show ?thesis
    proof (intro exI[of _ pre] conjI impI)
      show "map_of ?fin T = Some (pre @ l)" by (rule 1)
      show "\<forall>l0. map_of d T = Some l0 \<longrightarrow> pre = l0" by (rule 2)
      assume "map_of d T = None"
      then show "pre = [] \<or> (\<exists>A lA. is_ancestor A T \<and> map_of ?fin A = Some lA \<and> prefix pre lA)"
        by (rule 3)
    qed
  next
    case False
    with Cons.prems e have in_rem: "(T, l) \<in> set rem" and d: "distinct (map fst rem)" by auto
    have same: "map_of (addAdjusters_step src d (T', L)) T = map_of d T"
      using False assms(3) by (auto simp: map_of_addAdjusters_step)
    have fin: "foldl (addAdjusters_step src) d (e # rem)
        = foldl (addAdjusters_step src) (addAdjusters_step src d (T', L)) rem"
      unfolding e by simp
    from Cons.IH[OF d in_rem, of "addAdjusters_step src d (T', L)"]
    show ?thesis unfolding fin same .
  qed
qed

lemma addAdjusters_merge:
  assumes "distinct (map fst src)"
  shows "set (map fst (addAdjusters d src)) = set (map fst d) \<union> set (map fst src)"
    and "\<And>T l. map_of src T = Some l \<Longrightarrow>
          \<exists>pre. map_of (addAdjusters d src) T = Some (pre @ l)
             \<and> (\<forall>l0. map_of d T = Some l0 \<longrightarrow> pre = l0)
             \<and> (map_of d T = None \<longrightarrow> pre = []
                \<or> (\<exists>A lA. is_ancestor A T \<and> map_of (addAdjusters d src) A = Some lA
                      \<and> prefix pre lA))"
    and "\<And>T l0. map_of d T = Some l0 \<Longrightarrow> \<exists>suf. map_of (addAdjusters d src) T = Some (l0 @ suf)"
proof -
  show "set (map fst (addAdjusters d src)) = set (map fst d) \<union> set (map fst src)"
    unfolding addAdjusters_def using addAdjusters_fold_keys[of src d src] by simp
  show "\<exists>pre. map_of (addAdjusters d src) T = Some (pre @ l)
             \<and> (\<forall>l0. map_of d T = Some l0 \<longrightarrow> pre = l0)
             \<and> (map_of d T = None \<longrightarrow> pre = []
                \<or> (\<exists>A lA. is_ancestor A T \<and> map_of (addAdjusters d src) A = Some lA
                      \<and> prefix pre lA))" if "map_of src T = Some l" for T l
  proof -
    from that have "(T, l) \<in> set src" by (rule map_of_SomeD)
    moreover have "map_of src T \<noteq> None" using that by simp
    ultimately show ?thesis
      unfolding addAdjusters_def using assms by (intro addAdjusters_fold_source)
  qed
  show "\<exists>suf. map_of (addAdjusters d src) T = Some (l0 @ suf)" if "map_of d T = Some l0" for T l0
    unfolding addAdjusters_def using that by (rule addAdjusters_fold_grows)
qed

subsection \<open>Facts about the unknown-type error\<close>

lemma runWiringAdjuster_error:
  "runWiringAdjuster calls st = Inl e \<Longrightarrow> e \<noteq> RangeError"
  by (induction calls st rule: runWiringAdjuster.induct) auto

lemma expandWiringAdjuster_error:
  "expandWiringAdjuster env a arg this = Inl e \<Longrightarrow> e \<noteq> RangeError"
  unfolding expandWiringAdjuster_def
  by (auto split: sum.splits prod.splits dest: runWiringAdjuster_error)

lemma gather_loop_error:
  "gather_loop n env T arg w = Some (Inl e) \<Longrightarrow> e \<noteq> RangeError"
proof (induction n arbitrary: w)
  case 0 then show ?case by simp
next
  case (Suc n)
  show ?case
  proof (cases "map_of (wiringAdjusters w) T")
    case None with Suc.prems show ?thesis by simp
  next
    case (Some l)
    show ?thesis
    proof (cases l)
      case Nil with Some Suc.prems show ?thesis by simp
    next
      case (Cons a rest)
      show ?thesis
      proof (cases "alreadySupplied w a")
        case True
        with Some Cons Suc.prems
        have "gather_loop n env T arg (shiftWiringAdjuster w T) = Some (Inl e)" by simp
        then show ?thesis by (rule Suc.IH)
      next
        case False
        show ?thesis
        proof (cases "expandWiringAdjuster env a arg (shiftWiringAdjuster w T)")
          case (Inl e')
          with Some Cons False Suc.prems have "e' = e" by simp
          with Inl show ?thesis using expandWiringAdjuster_error by blast
        next
          case (Inr w1)
          with Some Cons False Suc.prems have "gather_loop n env T arg w1 = Some (Inl e)"
            by (auto split: option.splits sum.splits)
          then show ?thesis by (rule Suc.IH)
        qed
      qed
    qed
  qed
qed

lemma gather_error:
  "gatherWiringSuppliedByWiringAdjusters n env w T arg = Some (Inl e) \<Longrightarrow> e \<noteq> RangeError"
  unfolding gatherWiringSuppliedByWiringAdjusters_def
  by (auto split: if_splits dest: gather_loop_error)

lemma applyContainerAdjusters_error:
  "applyContainerAdjusters env T args adjs log = Inl e \<Longrightarrow> e = AdjusterError"
  by (induction env T args adjs log rule: applyContainerAdjusters.induct)
     (auto split: if_splits)

lemma getFlattened_error:
  "map_of c T \<noteq> None \<Longrightarrow> getFlattenedContainerAdjusters n this c T \<noteq> Some (Inl e)"
  unfolding getFlattenedContainerAdjusters_def by (auto split: option.splits)

lemma priv_createContainer_RangeError:
  "priv_createContainer fuel env this T args = Some (Inl RangeError) \<longleftrightarrow>
     (\<exists>w1 base. gatherWiringSuppliedByWiringAdjusters fuel env this '''' NoContext
          = Some (Inr (w1, base))
        \<and> map_of (containerAdjusters w1) (''.'' @ T) = None)"
proof (cases "gatherWiringSuppliedByWiringAdjusters fuel env this '''' NoContext")
  case None
  then show ?thesis by (simp add: priv_createContainer_def)
next
  case (Some r)
  show ?thesis
  proof (cases r)
    case (Inl e)
    with Some gather_error[of fuel env this "''''" NoContext e] show ?thesis
      by (auto simp: priv_createContainer_def)
  next
    case (Inr p)
    obtain w1 base where p: "p = (w1, base)" by (cases p)
    show ?thesis
    proof (cases "map_of (containerAdjusters w1) (''.'' @ T) = None")
      case True
      with Some Inr p show ?thesis by (simp add: priv_createContainer_def)
    next
      case False
      have "priv_createContainer fuel env this T args \<noteq> Some (Inl RangeError)"
      proof (cases "getFlattenedContainerAdjusters fuel w1 (containerAdjusters w1) (''.'' @ T)")
        case None
        with Some Inr p False show ?thesis by (simp add: priv_createContainer_def)
      next
        case fl: (Some rf)
        show ?thesis
        proof (cases rf)
          case (Inl e)
          with fl getFlattened_error[OF False] show ?thesis by blast
        next
          case fr: (Inr flattened)
          show ?thesis
          proof (cases "applyContainerAdjusters env T args flattened []")
            case (Inl e)
            with applyContainerAdjusters_error[OF Inl] Some Inr p False fl fr show ?thesis
              by (simp add: priv_createContainer_def)
          next
            case ar: (Inr ap)
            show ?thesis
            proof (cases "gatherWiringSuppliedByWiringAdjusters fuel env w1 T (Created T ap)")
              case None
              with Some Inr p False fl fr ar show ?thesis by (simp add: priv_createContainer_def)
            next
              case g2: (Some r2)
              show ?thesis
              proof (cases r2)
                case (Inl e)
                with gather_error[of fuel env w1 T "Created T ap" e] g2
                  Some Inr p False fl fr ar show ?thesis
                  by (auto simp: priv_createContainer_def)
              next
                case r2r: (Inr p2)
                with Some Inr p False fl fr ar g2 show ?thesis
                  by (cases p2) (simp add: priv_createContainer_def)
              qed
            qed
          qed
        qed
      qed
      with Some Inr p False show ?thesis by simp
    qed
  qed
qed

lemma priv_createContainerFactory_RangeError:
  "priv_createContainerFactory fuel env this T args = Some (Inl RangeError) \<longleftrightarrow>
     (\<exists>w1 base. gatherWiringSuppliedByWiringAdjusters fuel env this '''' NoContext
          = Some (Inr (w1, base))
        \<and> map_of (containerAdjusters w1) (''.'' @ T) = None)"
proof (cases "gatherWiringSuppliedByWiringAdjusters fuel env this '''' NoContext")
  case None
  then show ?thesis by (simp add: priv_createContainerFactory_def)
next
  case (Some r)
  show ?thesis
  proof (cases r)
    case (Inl e)
    with Some gather_error[of fuel env this "''''" NoContext e] show ?thesis
      by (auto simp: priv_createContainerFactory_def)
  next
    case (Inr p)
    with Some show ?thesis by (cases p) (auto simp: priv_createContainerFactory_def)
  qed
qed

lemma gather_containerAdjusters_keep:
  assumes "gatherWiringSuppliedByWiringAdjusters n env w T arg = Some (Inr (w', calls))"
    and "map_of (containerAdjusters w) k = Some l"
  shows "map_of (containerAdjusters w') k = Some l"
  using assms(1)
proof (cases rule: gather_cases)
  case 1 with assms(2) show ?thesis by simp
next
  case 2 from gather_loop_containerAdjusters_keep[OF 2 assms(2)] show ?thesis .
qed

lemma addAdjusters_known:
  "map_of d k \<noteq> None \<or> map_of src k \<noteq> None \<Longrightarrow> map_of (addAdjusters d src) k \<noteq> None"
proof -
  have "set (map fst (addAdjusters d src)) = set (map fst d) \<union> fst ` set src"
    unfolding addAdjusters_def by (rule addAdjusters_fold_keys)
  then show "map_of d k \<noteq> None \<or> map_of src k \<noteq> None \<Longrightarrow> map_of (addAdjusters d src) k \<noteq> None"
    unfolding map_of_eq_None_iff by auto
qed

lemma runWiringAdjuster_supplied_known:
  assumes "runWiringAdjuster calls st = Inr st'"
    and "map_of (containerAdjusters (snd st)) k \<noteq> None"
  shows "map_of (containerAdjusters (snd st')) k \<noteq> None"
proof -
  let ?Q = "\<lambda>st :: wiring \<times> wiring. map_of (containerAdjusters (snd st)) k \<noteq> None"
  show ?thesis
  proof (rule runWiringAdjuster_invariant[OF assms(1), where Q = ?Q])
    show "?Q st" by (rule assms(2))
  next
    fix st :: "wiring \<times> wiring" and x
    assume "?Q st"
    then show "?Q (addWiringCallback st x)"
      by (cases st) (simp add: addAdjusters_known)
  qed
qed

lemma runWiringAdjuster_supplied_types:
  assumes "runWiringAdjuster calls st = Inr st'" "AddWiring x \<in> set calls"
    and "map_of (containerAdjusters x) k \<noteq> None"
  shows "map_of (containerAdjusters (snd st')) k \<noteq> None"
  using assms(1,2)
proof (induction calls st rule: runWiringAdjuster.induct)
  case (1 state) then show ?case by simp
next
  case (2 y calls state)
  show ?case
  proof (cases "y = x")
    case True
    have k: "map_of (containerAdjusters (snd (addWiringCallback state x))) k \<noteq> None"
      using assms(3) by (cases state) (simp add: addAdjusters_known)
    have r: "runWiringAdjuster calls (addWiringCallback state x) = Inr st'"
      using 2(2) True by simp
    show ?thesis by (rule runWiringAdjuster_supplied_known[OF r k])
  next
    case False
    with 2 show ?thesis by simp
  qed
next
  case (3 calls state) then show ?case by simp
next
  case (4 calls state) then show ?case by simp
qed

lemma expandWiringAdjuster_types:
  assumes "expandWiringAdjuster env a arg this = Inr this'"
    and "AddWiring x \<in> set (wiringAdjusterCalls env a arg)"
    and "map_of (containerAdjusters x) k \<noteq> None"
  shows "map_of (containerAdjusters this') k \<noteq> None"
proof -
  from assms(1) obtain st where
    run: "runWiringAdjuster (wiringAdjusterCalls env a arg)
       (setSuppliedWiring this a (newWiring 0), newWiring 0) = Inr st"
    and this': "this' = setSuppliedWiring (fst (synchronise st)) a (snd (synchronise st))"
    by (rule expandWiringAdjuster_InrE)
  obtain t s where st: "st = (t, s)" by (cases st)
  have "map_of (containerAdjusters s) k \<noteq> None"
    using runWiringAdjuster_supplied_types[OF run assms(2,3)] st by simp
  then have "k \<in> set (map fst (containerAdjusters s))" by (simp add: map_of_eq_None_iff)
  then show ?thesis unfolding this' st by (simp add: foldl_ensure_known)
qed

lemma gather_loop_called_types:
  assumes "gather_loop n env T arg w = Some (Inr (w', calls))"
    and "WiringAdjusterCall a arg \<in> set calls"
    and "AddWiring x \<in> set (wiringAdjusterCalls env a arg)"
    and "map_of (containerAdjusters x) k \<noteq> None"
  shows "map_of (containerAdjusters w') k \<noteq> None"
  using assms(1,2)
proof (induction rule: gather_loop_induct)
  case (empty w) then show ?case by simp
next
  case (skip w a' rest w' calls m) then show ?case by simp
next
  case (expand w a' rest w1 w' calls m)
  show ?case
  proof (cases "a' = a")
    case True
    from expandWiringAdjuster_types[OF expand(3)[unfolded True] assms(3,4)]
    obtain l where "map_of (containerAdjusters w1) k = Some l" by auto
    from gather_loop_containerAdjusters_keep[OF expand(4) this] show ?thesis by simp
  next
    case False
    with expand show ?thesis by simp
  qed
qed

lemma gather_called_types:
  assumes "gatherWiringSuppliedByWiringAdjusters n env w T arg = Some (Inr (w', calls))"
    and "WiringAdjusterCall a arg \<in> set calls"
    and "AddWiring x \<in> set (wiringAdjusterCalls env a arg)"
    and "map_of (containerAdjusters x) k \<noteq> None"
  shows "map_of (containerAdjusters w') k \<noteq> None"
  using assms(1)
proof (cases rule: gather_cases)
  case 1 with assms(2) show ?thesis by simp
next
  case 2 from gather_loop_called_types[OF 2 assms(2,3,4)] show ?thesis .
qed

subsection \<open>The loop over the flattened adjusters\<close>

lemma applyContainerAdjusters_result:
  assumes "applyContainerAdjusters env T args adjs acc = Inr r"
    and "distinct (map fst acc)"
  shows "distinct (map fst r)
    \<and> fst ` set r = fst ` set acc \<union> set adjs
    \<and> (\<exists>new. r = acc @ new \<and> snd ` set new \<subseteq> {args})"
  using assms
proof (induction adjs arbitrary: acc)
  case Nil
  then show ?case by simp
next
  case (Cons a adjs)
  show ?case
  proof (cases "a \<in> fst ` set acc")
    case True
    with Cons.prems have "applyContainerAdjusters env T args adjs acc = Inr r" by simp
    from Cons.IH[OF this Cons.prems(2)] True show ?thesis by auto
  next
    case False
    with Cons.prems have run: "applyContainerAdjusters env T args adjs (acc @ [(a, args)]) = Inr r"
      by (simp split: if_splits)
    from False Cons.prems(2) have d: "distinct (map fst (acc @ [(a, args)]))" by auto
    from Cons.IH[OF run d] obtain new where
      1: "distinct (map fst r)" and 2: "fst ` set r = fst ` set (acc @ [(a, args)]) \<union> set adjs"
      and 3: "r = (acc @ [(a, args)]) @ new" and 4: "snd ` set new \<subseteq> {args}"
      by blast
    from 3 have "r = acc @ ((a, args) # new)" by simp
    moreover from 4 have "snd ` set ((a, args) # new) \<subseteq> {args}" by simp
    ultimately have "\<exists>new'. r = acc @ new' \<and> snd ` set new' \<subseteq> {args}" by blast
    with 1 2 show ?thesis by auto
  qed
qed

text \<open>
  A creation calls no container adjuster twice, calls every adjuster of the flattened list
  of the type, and passes each the arguments of the creation.
\<close>

lemma priv_createContainer_applied:
  assumes "priv_createContainer fuel env this T args = Some (Inr (c, calls))"
  shows "distinct (map fst (applied c)) \<and> snd ` set (applied c) \<subseteq> {args}
    \<and> (\<exists>this1 base flattened.
          gatherWiringSuppliedByWiringAdjusters fuel env this '''' NoContext = Some (Inr (this1, base))
        \<and> getFlattenedContainerAdjusters fuel this1 (containerAdjusters this1) (''.'' @ T)
            = Some (Inr flattened)
        \<and> fst ` set (applied c) = set flattened)"
proof -
  from assms obtain this1 base where
    g: "gatherWiringSuppliedByWiringAdjusters fuel env this '''' NoContext = Some (Inr (this1, base))"
    unfolding priv_createContainer_def
    by (auto split: option.splits sum.splits if_splits)
  from assms g obtain flattened where
    f: "getFlattenedContainerAdjusters fuel this1 (containerAdjusters this1) (''.'' @ T)
          = Some (Inr flattened)"
    unfolding priv_createContainer_def
    by (auto split: option.splits sum.splits if_splits)
  from assms g f obtain r where
    a: "applyContainerAdjusters env T args flattened [] = Inr r"
    unfolding priv_createContainer_def
    by (auto split: option.splits sum.splits if_splits)
  from assms g f a have c: "applied c = r"
    unfolding priv_createContainer_def
    by (auto split: option.splits sum.splits if_splits)
  from applyContainerAdjusters_result[OF a] have
    "distinct (map fst r)" "fst ` set r = set flattened" "snd ` set r \<subseteq> {args}"
    by auto
  with g f c show ?thesis by blast
qed

subsection \<open>Facts about container factories\<close>

lemma gather_loop_final_empty:
  assumes "gather_loop n env T arg w = Some (Inr (w', calls))"
  shows "stored (wiringAdjusters w') T = []"
  using assms by (induction rule: gather_loop_induct) simp_all

lemma gather_final_empty:
  assumes "gatherWiringSuppliedByWiringAdjusters n env w T arg = Some (Inr (w', calls))"
  shows "stored (wiringAdjusters w') T = []"
proof (cases "map_of (wiringAdjusters w) T = None")
  case True
  with assms have "w' = w"
    by (simp add: gatherWiringSuppliedByWiringAdjusters_def)
  with True show ?thesis by (simp add: stored_def)
next
  case False
  with assms have "gather_loop n env T arg w = Some (Inr (w', calls))"
    by (simp add: gatherWiringSuppliedByWiringAdjusters_def)
  then show ?thesis by (rule gather_loop_final_empty)
qed

lemma gather_again:
  assumes "gatherWiringSuppliedByWiringAdjusters n env w T arg = Some (Inr (w', calls))"
  shows "gatherWiringSuppliedByWiringAdjusters n env w' T arg' = Some (Inr (w', []))"
proof (cases "map_of (wiringAdjusters w) T = None")
  case True
  with assms show ?thesis
    by (simp add: gatherWiringSuppliedByWiringAdjusters_def)
next
  case False
  with assms have 2: "gather_loop n env T arg w = Some (Inr (w', calls))"
    by (simp add: gatherWiringSuppliedByWiringAdjusters_def)
  then obtain m where n: "n = Suc m" by (cases n) simp_all
  from gather_loop_final_empty[OF 2] have "map_of (wiringAdjusters w') T = None
      \<or> map_of (wiringAdjusters w') T = Some []"
    by (auto simp: stored_def split: option.splits)
  with n show ?thesis
    by (auto simp: gatherWiringSuppliedByWiringAdjusters_def)
qed

lemma priv_createContainer_after_base:
  assumes g: "gatherWiringSuppliedByWiringAdjusters fuel env this '''' NoContext
      = Some (Inr (this1, calls0))"
  shows "priv_createContainer fuel env this T args
     = (case priv_createContainer fuel env this1 T args of
          None \<Rightarrow> None
        | Some (Inl e) \<Rightarrow> Some (Inl e)
        | Some (Inr (c, calls)) \<Rightarrow> Some (Inr (c, calls0 @ calls)))"
proof -
  note g' = gather_again[OF g, of NoContext]
  show ?thesis
    unfolding priv_createContainer_def g g'
    by (simp split: option.splits sum.splits prod.splits)
qed

lemma priv_createContainerFactory_Inr:
  assumes "priv_createContainerFactory fuel env this T fArgs = Some (Inr (f, calls0))"
  shows "gatherWiringSuppliedByWiringAdjusters fuel env this '''' NoContext
      = Some (Inr (fwiring f, calls0))"
    and "map_of (containerAdjusters (fwiring f)) (''.'' @ T) \<noteq> None"
    and "ftype f = T" and "factoryArgs f = fArgs"
proof -
  from assms obtain this1 where
    g: "gatherWiringSuppliedByWiringAdjusters fuel env this '''' NoContext
          = Some (Inr (this1, calls0))"
    and k: "map_of (containerAdjusters this1) (''.'' @ T) \<noteq> None"
    and f: "f = \<lparr>fwiring = this1, ftype = T, factoryArgs = fArgs\<rparr>"
    unfolding priv_createContainerFactory_def
    by (cases "gatherWiringSuppliedByWiringAdjusters fuel env this '''' NoContext")
       (auto split: sum.splits if_splits)
  show "gatherWiringSuppliedByWiringAdjusters fuel env this '''' NoContext
      = Some (Inr (fwiring f, calls0))" using g f by simp
  show "map_of (containerAdjusters (fwiring f)) (''.'' @ T) \<noteq> None" using k f by simp
  show "ftype f = T" using f by simp
  show "factoryArgs f = fArgs" using f by simp
qed

lemma callFactory_not_RangeError:
  assumes "map_of (containerAdjusters (fwiring f)) (''.'' @ ftype f) \<noteq> None"
    and "stored (wiringAdjusters (fwiring f)) '''' = []"
  shows "callFactory fuel env f callerArgs \<noteq> Some (Inl RangeError)"
proof
  assume "callFactory fuel env f callerArgs = Some (Inl RangeError)"
  then have "priv_createContainer fuel env (fwiring f) (ftype f) (factoryArgs f @ callerArgs)
      = Some (Inl RangeError)"
    by (simp add: callFactory_def)
  then obtain w1 base where
    g: "gatherWiringSuppliedByWiringAdjusters fuel env (fwiring f) '''' NoContext
          = Some (Inr (w1, base))"
    and u: "map_of (containerAdjusters w1) (''.'' @ ftype f) = None"
    unfolding priv_createContainer_RangeError by blast
  from g have "w1 = fwiring f"
  proof (cases rule: gather_cases)
    case 1 then show ?thesis by simp
  next
    case 2
    then obtain m where "fuel = Suc m" by (cases fuel) simp_all
    with 2 assms(2) show ?thesis
      by (auto simp: stored_def split: option.splits list.splits)
  qed
  with u assms(1) show False by simp
qed

subsection \<open>Facts about the lists of pending wiring adjusters\<close>

lemma not_ancestor_empty: "k = '''' \<or> isValidContainerType k \<Longrightarrow> \<not> is_ancestor '''' k"
  by (cases k) (auto simp: is_ancestor_def isValidContainerType_def)

lemma not_descendant_empty [simp]: "\<not> is_ancestor A ''''"
  by (simp add: is_ancestor_def)

lemma set_keys_addAdjuster:
  "set (map fst (addAdjuster c T f)) = insert T (set (map fst c))"
  by (simp add: addAdjuster_def set_keys_ensure del: set_map)

lemma set_keys_addAdjusters:
  "set (map fst (addAdjusters d src)) = set (map fst d) \<union> set (map fst src)"
  unfolding addAdjusters_def using addAdjusters_fold_keys[of src d src] by simp

lemma adjusters_of_addAdjuster: "adjusters_of (addAdjuster c T f) \<subseteq> insert f (adjusters_of c)"
proof -
  have "adjusters_of (addAdjuster c T f)
      \<subseteq> adjusters_of (pushAdjustersAt (ensureContainerTypeExists c T) T [f]) \<union> set [f]"
    unfolding addAdjuster_def pushAdjustersIntoDescendants_alt
    by (rule adjusters_of_map_values) auto
  also have "\<dots> \<subseteq> (adjusters_of (ensureContainerTypeExists c T) \<union> set [f]) \<union> set [f]"
    using adjusters_of_pushAdjustersAt by blast
  also have "\<dots> \<subseteq> insert f (adjusters_of c)"
    using adjusters_of_ensure by auto
  finally show ?thesis .
qed

lemma known_iff_key: "map_of c k \<noteq> None \<longleftrightarrow> k \<in> set (map fst c)"
  by (simp add: map_of_eq_None_iff)

lemma plc_new [simp]: "pending_lists_complete (newWiring cls)"
  by (simp add: pending_lists_complete_def ancestor_inclusive_def)

lemma plc_adjustContainer:
  assumes "pending_lists_complete w" "isValidContainerType T"
  shows "pending_lists_complete (priv_adjustContainer w T f)"
proof -
  from assms(1) have d: "distinct (map fst (wiringAdjusters w))"
    and i: "ancestor_inclusive (wiringAdjusters w)"
    and v: "\<forall>k \<in> set (map fst (wiringAdjusters w)). k = '''' \<or> isValidContainerType k"
    and c: "\<forall>X. ''.'' @ X \<in> set (map fst (containerAdjusters w))
            \<longrightarrow> X \<in> set (map fst (wiringAdjusters w))"
    unfolding pending_lists_complete_def known_iff_key by blast+
  show ?thesis
    unfolding pending_lists_complete_def known_iff_key priv_adjustContainer_def wiring.sel
    using complete_collection_ensure[OF d i, of T] v c assms(2)
    by (auto simp: set_keys_ensure set_keys_addAdjuster simp del: set_map)
qed

lemma plc_adjustWiringAfter:
  assumes "pending_lists_complete w" "T = '''' \<or> isValidContainerType T"
  shows "pending_lists_complete (priv_adjustWiringAfter w T f)"
proof -
  from assms(1) have d: "distinct (map fst (wiringAdjusters w))"
    and i: "ancestor_inclusive (wiringAdjusters w)"
    and v: "\<forall>k \<in> set (map fst (wiringAdjusters w)). k = '''' \<or> isValidContainerType k"
    and c: "\<forall>X. ''.'' @ X \<in> set (map fst (containerAdjusters w))
            \<longrightarrow> X \<in> set (map fst (wiringAdjusters w))"
    unfolding pending_lists_complete_def known_iff_key by blast+
  show ?thesis
    unfolding pending_lists_complete_def known_iff_key priv_adjustWiringAfter_def
      sel_ensureSuppliedWiringKeyExists wiring.sel
    using complete_collection_addAdjuster[OF d i, of T f] v c assms(2)
    by (auto simp: set_keys_ensure set_keys_addAdjuster simp del: set_map)
qed

lemma plc_addWiring:
  assumes "pending_lists_complete w" "pending_lists_complete other"
  shows "pending_lists_complete (priv_addWiring w other)"
proof -
  from assms(1) have d: "distinct (map fst (wiringAdjusters w))"
    and i: "ancestor_inclusive (wiringAdjusters w)"
    and v: "\<forall>k \<in> set (map fst (wiringAdjusters w)). k = '''' \<or> isValidContainerType k"
    and c: "\<forall>X. ''.'' @ X \<in> set (map fst (containerAdjusters w))
            \<longrightarrow> X \<in> set (map fst (wiringAdjusters w))"
    unfolding pending_lists_complete_def known_iff_key by blast+
  from assms(2) have d': "distinct (map fst (wiringAdjusters other))"
    and i': "ancestor_inclusive (wiringAdjusters other)"
    and v': "\<forall>k \<in> set (map fst (wiringAdjusters other)). k = '''' \<or> isValidContainerType k"
    and c': "\<forall>X. ''.'' @ X \<in> set (map fst (containerAdjusters other))
            \<longrightarrow> X \<in> set (map fst (wiringAdjusters other))"
    unfolding pending_lists_complete_def known_iff_key by blast+
  show ?thesis
    unfolding pending_lists_complete_def known_iff_key priv_addWiring_def
      sel_addSuppliedWiring wiring.sel
    using complete_collection_addAdjusters[OF d i d' i'] v c v' c'
    by (auto simp: set_keys_addAdjusters simp del: set_map)
qed

lemma map_of_ensureSuppliedWiringKeyExists:
  "map_of (wiringSuppliedByWiringAdjusters (ensureSuppliedWiringKeyExists w f)) a
     = (if a = f \<and> map_of (wiringSuppliedByWiringAdjusters w) f = None then Some None
        else map_of (wiringSuppliedByWiringAdjusters w) a)"
  by (auto simp: ensureSuppliedWiringKeyExists_def map_of_map_set)

lemma all_unresolved_new [simp]: "all_unresolved (newWiring cls)"
  by (simp add: all_unresolved_def pending_adjusters_def adjusters_of_def)

lemma all_unresolved_adjustContainer:
  assumes "all_unresolved w"
  shows "all_unresolved (priv_adjustContainer w T f)"
  using assms adjusters_of_ensure[of "wiringAdjusters w" T]
  unfolding all_unresolved_def pending_adjusters_def unresolved_def priv_adjustContainer_def
  by auto

lemma all_unresolved_adjustWiringAfter:
  assumes "all_unresolved w"
  shows "all_unresolved (priv_adjustWiringAfter w T f)"
proof -
  have p: "pending_adjusters (priv_adjustWiringAfter w T f) \<subseteq> insert f (pending_adjusters w)"
    using adjusters_of_addAdjuster[of "wiringAdjusters w" T f]
    by (simp add: pending_adjusters_def priv_adjustWiringAfter_def)
  have m: "map_of (wiringSuppliedByWiringAdjusters (priv_adjustWiringAfter w T f)) a
      = (if a = f \<and> map_of (wiringSuppliedByWiringAdjusters w) f = None then Some None
         else map_of (wiringSuppliedByWiringAdjusters w) a)" for a
    by (simp add: priv_adjustWiringAfter_def map_of_ensureSuppliedWiringKeyExists)
  show ?thesis
    unfolding all_unresolved_def unresolved_def m
    using assms p unfolding all_unresolved_def unresolved_def by (auto split: if_splits)
qed

lemma all_unresolved_addWiring:
  assumes "all_unresolved w" "all_unresolved other"
  shows "all_unresolved (priv_addWiring w other)"
proof -
  have p: "pending_adjusters (priv_addWiring w other)
      \<subseteq> pending_adjusters w \<union> pending_adjusters other"
    using adjusters_of_addAdjusters[of "wiringAdjusters w" "wiringAdjusters other"]
    by (simp add: pending_adjusters_def priv_addWiring_def)
  have m: "map_of (wiringSuppliedByWiringAdjusters (priv_addWiring w other)) a
      = (case map_of (wiringSuppliedByWiringAdjusters w) a of Some v \<Rightarrow> Some v
         | None \<Rightarrow> map_of (wiringSuppliedByWiringAdjusters other) a)" for a
    by (simp add: priv_addWiring_def map_of_addSuppliedWiring_map)
  show ?thesis
    unfolding all_unresolved_def unresolved_def m
    using assms p unfolding all_unresolved_def unresolved_def
    by (auto split: option.splits)
qed

lemma definition_phase_pending:
  "definition_phase w \<Longrightarrow> pending_lists_complete w \<and> all_unresolved w"
proof (induction rule: definition_phase.induct)
  case new_builder
  show ?case by (simp add: WiringBuilder_new_def)
next
  case (new_subclass cls)
  show ?case by (simp add: WiringBuilder_new_def)
next
  case (import_wiring other)
  then show ?case by (simp add: WiringBuilder_new_def build_def)
next
  case (after_adjustBaseWiring builder wiringAdjuster builder')
  then show ?case
    by (auto simp: adjustBaseWiring_def priv_adjustBaseWiring_def plc_adjustWiringAfter
        all_unresolved_adjustWiringAfter)
next
  case (after_adjustContainer builder containerType containerAdjuster builder')
  then show ?case
    by (auto simp: adjustContainer_def plc_adjustContainer all_unresolved_adjustContainer
        split: if_splits)
next
  case (after_adjustWiringAfter builder containerType wiringAdjuster builder')
  then show ?case
    by (auto simp: adjustWiringAfter_def plc_adjustWiringAfter all_unresolved_adjustWiringAfter
        split: if_splits)
next
  case (after_addWiring builder other builder')
  then show ?case
    by (auto simp: addWiring_def build_def plc_addWiring all_unresolved_addWiring)
qed

lemma expandWiringAdjuster_complete:
  assumes e: "expandWiringAdjuster env a arg this = Inr this'"
    and env: "supplies_built_wiring env"
    and plc: "pending_lists_complete this"
  shows "pending_lists_complete this'"
proof -
  from e obtain st where
    run: "runWiringAdjuster (wiringAdjusterCalls env a arg)
       (setSuppliedWiring this a (newWiring 0), newWiring 0) = Inr st"
    and this': "this' = setSuppliedWiring (fst (synchronise st)) a (snd (synchronise st))"
    by (rule expandWiringAdjuster_InrE)
  let ?Q = "\<lambda>st :: wiring \<times> wiring.
      distinct (map fst (wiringAdjusters (fst st))) \<and> ancestor_inclusive (wiringAdjusters (fst st))
      \<and> (\<forall>k \<in> set (map fst (wiringAdjusters (fst st))). k = '''' \<or> isValidContainerType k)
      \<and> (\<forall>X. ''.'' @ X \<in> set (map fst (containerAdjusters this))
                 \<union> set (map fst (containerAdjusters (snd st)))
            \<longrightarrow> X \<in> set (map fst (wiringAdjusters (fst st))))"
  have "?Q st"
  proof (rule runWiringAdjuster_invariant[OF run, where Q = ?Q])
    show "?Q (setSuppliedWiring this a (newWiring 0), newWiring 0)"
      using plc unfolding pending_lists_complete_def known_iff_key by simp
  next
    fix st :: "wiring \<times> wiring" and x
    assume q: "?Q st" and x: "AddWiring x \<in> set (wiringAdjusterCalls env a arg)"
    obtain t s where st: "st = (t, s)" by (cases st)
    from env x have "definition_phase x"
      unfolding supplies_built_wiring_def build_def by auto
    then have px: "pending_lists_complete x" using definition_phase_pending by blast
    then have d': "distinct (map fst (wiringAdjusters x))"
      and i': "ancestor_inclusive (wiringAdjusters x)"
      and v': "\<forall>k \<in> set (map fst (wiringAdjusters x)). k = '''' \<or> isValidContainerType k"
      and c': "\<forall>X. ''.'' @ X \<in> set (map fst (containerAdjusters x))
            \<longrightarrow> X \<in> set (map fst (wiringAdjusters x))"
      unfolding pending_lists_complete_def known_iff_key by blast+
    from q st have d: "distinct (map fst (wiringAdjusters t))"
      and i: "ancestor_inclusive (wiringAdjusters t)"
      and v: "\<forall>k \<in> set (map fst (wiringAdjusters t)). k = '''' \<or> isValidContainerType k"
      and c: "\<forall>X. ''.'' @ X \<in> set (map fst (containerAdjusters this))
                 \<union> set (map fst (containerAdjusters s))
            \<longrightarrow> X \<in> set (map fst (wiringAdjusters t))"
      by simp_all
    show "?Q (addWiringCallback st x)"
      unfolding st sel_addWiringCallback
      using complete_collection_addAdjusters[OF d i d' i'] v c v' c'
      by (auto simp: set_keys_addAdjusters simp del: set_map)
  qed
  moreover obtain t s where st: "st = (t, s)" by (cases st)
  moreover from runWiringAdjuster_this[OF run] st
  have "containerAdjusters t = containerAdjusters this" by simp
  ultimately show ?thesis
    unfolding this' pending_lists_complete_def known_iff_key
    by (auto simp: foldl_ensure_keys simp del: set_map)
qed

lemma expandWiringAdjuster_pending_grows:
  assumes e: "expandWiringAdjuster env a arg this = Inr this'"
    and l: "map_of (wiringAdjusters this) k = Some l"
  shows "\<exists>suf. map_of (wiringAdjusters this') k = Some (l @ suf)"
proof -
  from e obtain st where
    run: "runWiringAdjuster (wiringAdjusterCalls env a arg)
       (setSuppliedWiring this a (newWiring 0), newWiring 0) = Inr st"
    and this': "this' = setSuppliedWiring (fst (synchronise st)) a (snd (synchronise st))"
    by (rule expandWiringAdjuster_InrE)
  let ?Q = "\<lambda>st :: wiring \<times> wiring. \<exists>suf. map_of (wiringAdjusters (fst st)) k = Some (l @ suf)"
  have "?Q st"
  proof (rule runWiringAdjuster_invariant[OF run, where Q = ?Q])
    show "?Q (setSuppliedWiring this a (newWiring 0), newWiring 0)" using l by simp
  next
    fix st :: "wiring \<times> wiring" and x
    assume "?Q st"
    then obtain suf where s: "map_of (wiringAdjusters (fst st)) k = Some (l @ suf)" by blast
    obtain t s' where st: "st = (t, s')" by (cases st)
    from addAdjusters_fold_grows[OF s[unfolded st fst_conv], of "wiringAdjusters x" "wiringAdjusters x"]
    show "?Q (addWiringCallback st x)"
      unfolding st by (auto simp: addAdjusters_def)
  qed
  then show ?thesis unfolding this' by (cases st) simp
qed

lemma inclusive_shift_base:
  assumes d: "distinct (map fst c)" and i: "ancestor_inclusive c"
    and v: "\<forall>k \<in> set (map fst c). k = '''' \<or> isValidContainerType k"
  shows "ancestor_inclusive (shiftAt c '''')"
proof -
  from i have im: "inclusive_map (map_of c)" using ancestor_inclusive_iff[OF d] by simp
  have "inclusive_map (map_of (shiftAt c ''''))"
    unfolding inclusive_map_def
  proof (intro allI impI)
    fix A D la ld
    assume a: "map_of (shiftAt c '''') A = Some la"
      and b: "map_of (shiftAt c '''') D = Some ld" and ad: "is_ancestor A D"
    from ad have D: "D \<noteq> ''''" by auto
    from b have "map_of (shiftAt c []) D \<noteq> None" by simp
    then have "D \<in> set (map fst (shiftAt c []))" unfolding known_iff_key .
    then have "D \<in> set (map fst c)" by simp
    with v have "D = '''' \<or> isValidContainerType D" by blast
    with ad have A: "A \<noteq> ''''" using not_ancestor_empty by blast
    from a A have a': "map_of c A = Some la" by (simp add: map_of_shiftAt)
    from b D have b': "map_of c D = Some ld" by (simp add: map_of_shiftAt)
    from im a' b' ad show "set la \<subseteq> set ld" unfolding inclusive_map_def by blast
  qed
  moreover have "distinct (map fst (shiftAt c ''''))" using d by simp
  ultimately show ?thesis using ancestor_inclusive_iff by blast
qed

lemma shift_base_complete:
  assumes "pending_lists_complete w"
  shows "pending_lists_complete (shiftWiringAdjuster w '''')"
proof -
  from assms have "ancestor_inclusive (shiftAt (wiringAdjusters w) '''')"
    unfolding pending_lists_complete_def by (intro inclusive_shift_base) blast+
  with assms show ?thesis
    unfolding pending_lists_complete_def known_iff_key by simp
qed

lemma gather_base_complete:
  assumes "gatherWiringSuppliedByWiringAdjusters n env w '''' arg = Some (Inr (w', calls))"
    and "supplies_built_wiring env" and "pending_lists_complete w"
  shows "pending_lists_complete w'"
  using assms(1,3)
proof (rule gather_invariant)
  fix w assume "pending_lists_complete w"
  then show "pending_lists_complete (shiftWiringAdjuster w '''')" by (rule shift_base_complete)
next
  fix w a w'
  assume "pending_lists_complete w" "expandWiringAdjuster env a arg w = Inr w'"
  then show "pending_lists_complete w'" using expandWiringAdjuster_complete assms(2) by blast
qed

lemma gather_pending_grows:
  assumes "gatherWiringSuppliedByWiringAdjusters n env w T arg = Some (Inr (w', calls))"
    and "map_of (wiringAdjusters w) k = Some l" and "k \<noteq> T"
  shows "\<exists>suf. map_of (wiringAdjusters w') k = Some (l @ suf)"
proof -
  let ?P = "\<lambda>w. \<exists>suf. map_of (wiringAdjusters w) k = Some (l @ suf)"
  show ?thesis
  proof (rule gather_invariant[OF assms(1), where P = ?P])
    show "?P w" using assms(2) by simp
  next
    fix w assume "?P w"
    then show "?P (shiftWiringAdjuster w T)" using assms(3) by (simp add: map_of_shiftAt)
  next
    fix w a w'
    assume "?P w" and e: "expandWiringAdjuster env a arg w = Inr w'"
    then obtain suf where "map_of (wiringAdjusters w) k = Some (l @ suf)" by blast
    from expandWiringAdjuster_pending_grows[OF e this] show "?P w'" by auto
  qed
qed

lemma gather_unresolved_cases:
  assumes "gatherWiringSuppliedByWiringAdjusters n env w T arg = Some (Inr (w', calls))"
    and "unresolved w a"
  shows "unresolved w' a \<or> alreadySupplied w' a"
proof -
  let ?P = "\<lambda>w. unresolved w a \<or> alreadySupplied w a"
  show ?thesis
  proof (rule gather_invariant[OF assms(1), where P = ?P])
    show "?P w" using assms(2) by simp
  next
    fix w assume "?P w"
    then show "?P (shiftWiringAdjuster w T)"
      by (simp add: unresolved_def alreadySupplied_iff)
  next
    fix w a' w'
    assume p: "?P w" and e: "expandWiringAdjuster env a' arg w = Inr w'"
    show "?P w'"
    proof (cases "a' = a")
      case True
      with expandWiringAdjuster_facts(2)[OF e] show ?thesis by simp
    next
      case False
      with p expandWiringAdjuster_facts(3)[OF e, of a] show ?thesis
        by (auto simp: unresolved_def alreadySupplied_iff)
    qed
  qed
qed

lemma gather_loop_calls_pending:
  assumes "gather_loop n env T arg w = Some (Inr (w', calls))"
  shows "\<forall>a \<in> set (stored (wiringAdjusters w) T).
           unresolved w a \<longrightarrow> WiringAdjusterCall a arg \<in> set calls"
  using assms
proof (induction rule: gather_loop_induct)
  case (empty w)
  then show ?case by simp
next
  case (skip w a rest w' calls m)
  have "stored (wiringAdjusters (shiftWiringAdjuster w T)) T = rest"
    using skip(1) by (simp add: stored_def map_of_shiftAt)
  with skip(1,2,4) show ?case
    by (auto simp: stored_def unresolved_def alreadySupplied_iff)
next
  case (expand w a rest w1 w' calls m)
  have r: "map_of (wiringAdjusters (shiftWiringAdjuster w T)) T = Some rest"
    using expand(1) by (simp add: map_of_shiftAt)
  from expandWiringAdjuster_pending_grows[OF expand(3) r] obtain suf where
    w1: "stored (wiringAdjusters w1) T = rest @ suf" by (auto simp: stored_def)
  show ?case
  proof (intro ballI impI)
    fix b assume b: "b \<in> set (stored (wiringAdjusters w) T)" and u: "unresolved w b"
    show "WiringAdjusterCall b arg \<in> set (WiringAdjusterCall a arg # calls)"
    proof (cases "b = a")
      case True then show ?thesis by simp
    next
      case False
      with b expand(1) have "b \<in> set rest" by (simp add: stored_def)
      with w1 have 1: "b \<in> set (stored (wiringAdjusters w1) T)" by simp
      from u False expandWiringAdjuster_facts(3)[OF expand(3), of b None]
      have 2: "unresolved w1 b" by (simp add: unresolved_def)
      from expand(5) 1 2 show ?thesis by simp
    qed
  qed
qed

lemma gather_loop_resolved_called:
  assumes "gather_loop n env T arg w = Some (Inr (w', calls))"
  shows "\<forall>a. unresolved w a \<longrightarrow> alreadySupplied w' a \<longrightarrow> WiringAdjusterCall a arg \<in> set calls"
  using assms
proof (induction rule: gather_loop_induct)
  case (empty w)
  then show ?case by (auto simp: unresolved_def alreadySupplied_iff)
next
  case (skip w a rest w' calls m)
  then show ?case by (simp add: unresolved_def)
next
  case (expand w a rest w1 w' calls m)
  show ?case
  proof (intro allI impI)
    fix b assume u: "unresolved w b" and s: "alreadySupplied w' b"
    show "WiringAdjusterCall b arg \<in> set (WiringAdjusterCall a arg # calls)"
    proof (cases "b = a")
      case True then show ?thesis by simp
    next
      case False
      from u False expandWiringAdjuster_facts(3)[OF expand(3), of b None]
      have "unresolved w1 b" by (simp add: unresolved_def)
      with expand(5) s show ?thesis by simp
    qed
  qed
qed

lemma gather_loop_all_supplied:
  assumes "gather_loop n env T arg w = Some (Inr (w', calls))"
  shows "\<forall>a \<in> set (stored (wiringAdjusters w) T). alreadySupplied w' a"
  using assms
proof (induction rule: gather_loop_induct)
  case (empty w)
  then show ?case by simp
next
  case (skip w a rest w' calls m)
  have "stored (wiringAdjusters (shiftWiringAdjuster w T)) T = rest"
    using skip(1) by (simp add: stored_def map_of_shiftAt)
  moreover have "alreadySupplied (shiftWiringAdjuster w T) a"
    using skip(2) by (simp add: alreadySupplied_iff)
  then have "alreadySupplied w' a" by (rule alreadySupplied_gather_loop[OF skip(3)])
  ultimately show ?case using skip(1,4) by (auto simp: stored_def)
next
  case (expand w a rest w1 w' calls m)
  have r: "map_of (wiringAdjusters (shiftWiringAdjuster w T)) T = Some rest"
    using expand(1) by (simp add: map_of_shiftAt)
  from expandWiringAdjuster_pending_grows[OF expand(3) r] obtain suf where
    w1: "stored (wiringAdjusters w1) T = rest @ suf" by (auto simp: stored_def)
  have "alreadySupplied w1 a" by (rule expandWiringAdjuster_facts(2)[OF expand(3)])
  then have "alreadySupplied w' a" by (rule alreadySupplied_gather_loop[OF expand(4)])
  with w1 expand(1,5) show ?case by (auto simp: stored_def)
qed

lemma gather_after_calls:
  assumes g: "gatherWiringSuppliedByWiringAdjusters n env w T arg = Some (Inr (w', calls))"
  shows "\<forall>a \<in> set (stored (wiringAdjusters w) T).
           unresolved w a \<longrightarrow> WiringAdjusterCall a arg \<in> set calls"
    and "\<forall>a. unresolved w a \<longrightarrow> alreadySupplied w' a \<longrightarrow> WiringAdjusterCall a arg \<in> set calls"
    and "\<forall>a \<in> set (stored (wiringAdjusters w) T). alreadySupplied w' a"
proof -
  have "(\<forall>a \<in> set (stored (wiringAdjusters w) T).
           unresolved w a \<longrightarrow> WiringAdjusterCall a arg \<in> set calls)
    \<and> (\<forall>a. unresolved w a \<longrightarrow> alreadySupplied w' a \<longrightarrow> WiringAdjusterCall a arg \<in> set calls)
    \<and> (\<forall>a \<in> set (stored (wiringAdjusters w) T). alreadySupplied w' a)"
  proof (cases "map_of (wiringAdjusters w) T = None")
    case True
    with g have "w' = w" "calls = []"
      by (simp_all add: gatherWiringSuppliedByWiringAdjusters_def)
    with True show ?thesis by (auto simp: stored_def unresolved_def alreadySupplied_iff)
  next
    case False
    with g have l: "gather_loop n env T arg w = Some (Inr (w', calls))"
      by (simp add: gatherWiringSuppliedByWiringAdjusters_def)
    from gather_loop_calls_pending[OF l] gather_loop_resolved_called[OF l]
      gather_loop_all_supplied[OF l]
    show ?thesis by blast
  qed
  then show "\<forall>a \<in> set (stored (wiringAdjusters w) T).
           unresolved w a \<longrightarrow> WiringAdjusterCall a arg \<in> set calls"
    and "\<forall>a. unresolved w a \<longrightarrow> alreadySupplied w' a \<longrightarrow> WiringAdjusterCall a arg \<in> set calls"
    and "\<forall>a \<in> set (stored (wiringAdjusters w) T). alreadySupplied w' a"
    by blast+
qed

lemma run_ops_pending_grow:
  "run_op op b = Inr b' \<Longrightarrow> map_of (wiringAdjusters b) U = Some l
     \<Longrightarrow> \<exists>suf. map_of (wiringAdjusters b') U = Some (l @ suf)"
  "run_ops ops b = Inr b' \<Longrightarrow> map_of (wiringAdjusters b) U = Some l
     \<Longrightarrow> \<exists>suf. map_of (wiringAdjusters b') U = Some (l @ suf)"
proof (induction op b and ops b arbitrary: b' l and b' l rule: run_op_run_ops.induct)
  case (1 containerType containerAdjuster builder)
  then show ?case
    by (auto simp: adjustContainer_def priv_adjustContainer_def ensure_keeps split: if_splits)
next
  case (2 wiringAdjuster builder)
  then show ?case
    by (auto simp: adjustBaseWiring_def priv_adjustBaseWiring_def priv_adjustWiringAfter_def
        map_of_addAdjuster)
next
  case (3 containerType wiringAdjuster builder)
  then show ?case
    by (auto simp: adjustWiringAfter_def priv_adjustWiringAfter_def map_of_addAdjuster
        split: if_splits)
next
  case (4 ops builder)
  from 4(2) obtain other where
    b': "b' = priv_addWiring builder (build other)"
    by (auto simp: addWiring_def split: sum.splits)
  from addAdjusters_fold_grows[OF 4(3), of "wiringAdjusters (build other)"
      "wiringAdjusters (build other)"]
  show ?case unfolding b' by (simp add: priv_addWiring_def addAdjusters_def)
next
  case (5 builder)
  then show ?case by simp
next
  case (6 op ops builder)
  from 6(3) obtain b1 where 1: "run_op op builder = Inr b1" and 2: "run_ops ops b1 = Inr b'"
    by (auto split: sum.splits)
  from 6(1)[OF 1 6(4)] obtain s1 where "map_of (wiringAdjusters b1) U = Some (l @ s1)" by blast
  from 6(2)[OF 1 2 this] show ?case by auto
qed

lemma run_ops_definition_phase:
  "run_op op b = Inr b' \<Longrightarrow> definition_phase b \<Longrightarrow> definition_phase b'"
  "run_ops ops b = Inr b' \<Longrightarrow> definition_phase b \<Longrightarrow> definition_phase b'"
proof (induction op b and ops b arbitrary: b' and b' rule: run_op_run_ops.induct)
  case (1 containerType containerAdjuster builder)
  then show ?case using after_adjustContainer by simp
next
  case (2 wiringAdjuster builder)
  then show ?case using after_adjustBaseWiring by simp
next
  case (3 containerType wiringAdjuster builder)
  then show ?case using after_adjustWiringAfter by simp
next
  case (4 ops builder)
  from 4(2) obtain other where
    o: "run_ops ops (WiringBuilder_new None) = Inr other"
    and b': "addWiring builder (build other) = Inr b'"
    by (auto split: sum.splits)
  from 4(1)[OF o new_builder] have "definition_phase other" .
  from after_addWiring[OF 4(3) this b'] show ?case .
next
  case (5 builder)
  then show ?case by simp
next
  case (6 op ops builder)
  from 6(3) obtain b1 where 1: "run_op op builder = Inr b1" and 2: "run_ops ops b1 = Inr b'"
    by (auto split: sum.splits)
  from 6(2)[OF 1 2 6(1)[OF 1 6(4)]] show ?case .
qed

lemma created_after_calls:
  assumes cc: "createContainer fuel env w T args = Some (Inr (c, calls))"
  shows "\<exists>this1 base after.
        gatherWiringSuppliedByWiringAdjusters fuel env (clone w) '''' NoContext
          = Some (Inr (this1, base))
      \<and> gatherWiringSuppliedByWiringAdjusters fuel env this1 T (Created T (applied c))
          = Some (Inr (wiringBean c, after))
      \<and> calls = base @ RegisterWiringBean
          # map (\<lambda>(a, args). ContainerAdjusterCall a args) (applied c) @ after
      \<and> distinct after
      \<and> (\<forall>x \<in> set after. \<exists>a. x = WiringAdjusterCall a (Created T (applied c))
            \<and> \<not> alreadySupplied this1 a)
      \<and> (\<forall>a \<in> set (stored (wiringAdjusters this1) T). unresolved this1 a
            \<longrightarrow> WiringAdjusterCall a (Created T (applied c)) \<in> set after)
      \<and> (\<exists>flattened.
            getFlattenedContainerAdjusters fuel this1 (containerAdjusters this1) (''.'' @ T)
              = Some (Inr flattened)
          \<and> fst ` set (applied c) = set flattened)
      \<and> (definition_phase w \<longrightarrow> supplies_built_wiring env \<longrightarrow>
           (\<forall>U a. (U = T \<or> is_ancestor U T) \<longrightarrow> a \<in> set (stored (wiringAdjusters w) U) \<longrightarrow>
              (WiringAdjusterCall a NoContext \<in> set base
                 \<and> WiringAdjusterCall a (Created T (applied c)) \<notin> set after)
            \<or> (WiringAdjusterCall a NoContext \<notin> set base
                 \<and> WiringAdjusterCall a (Created T (applied c)) \<in> set after)))"
proof -
  from cc have valid: "isValidContainerType T"
    and p: "priv_createContainer fuel env w T args = Some (Inr (c, calls))"
    by (simp_all add: createContainer_def split: if_splits)
  from p show ?thesis
  proof (cases rule: priv_createContainer_InrE)
    case (1 this1 base flattened after)
    let ?ctx = "Created T (applied c)"
    have form: "\<forall>x \<in> set after. \<exists>a. x = WiringAdjusterCall a ?ctx \<and> \<not> alreadySupplied this1 a"
      using gather_calls(2)[OF 1(5)] by blast
    have pend: "\<forall>a \<in> set (stored (wiringAdjusters this1) T). unresolved this1 a
            \<longrightarrow> WiringAdjusterCall a ?ctx \<in> set after"
      by (rule gather_after_calls(1)[OF 1(5)])
    have once: "(WiringAdjusterCall a NoContext \<in> set base
               \<and> WiringAdjusterCall a ?ctx \<notin> set after)
          \<or> (WiringAdjusterCall a NoContext \<notin> set base
               \<and> WiringAdjusterCall a ?ctx \<in> set after)"
      if dp: "definition_phase w" and env: "supplies_built_wiring env"
        and U: "U = T \<or> is_ancestor U T" and a: "a \<in> set (stored (wiringAdjusters w) U)" for U a
    proof -
      from definition_phase_pending[OF dp] have plc: "pending_lists_complete w"
        and un: "all_unresolved w" by simp_all
      have plc1: "pending_lists_complete this1" by (rule gather_base_complete[OF 1(1) env plc])
      then have d1: "distinct (map fst (wiringAdjusters this1))"
        and i1: "ancestor_inclusive (wiringAdjusters this1)"
        and k1: "map_of (wiringAdjusters this1) T \<noteq> None"
        using 1(2) unfolding pending_lists_complete_def by blast+
      from i1 have im: "inclusive_map (map_of (wiringAdjusters this1))"
        using ancestor_inclusive_iff[OF d1] by simp
      from U valid have U0: "U \<noteq> ''''"
        using not_ancestor_empty[of T] by (auto simp: isValidContainerType_def)
      from a obtain l where l: "map_of (wiringAdjusters w) U = Some l" and al: "a \<in> set l"
        by (cases "map_of (wiringAdjusters w) U") (auto simp: stored_def)
      from gather_pending_grows[OF 1(1) l U0] obtain suf where
        l1: "map_of (wiringAdjusters this1) U = Some (l @ suf)" by blast
      from k1 obtain lt where lt: "map_of (wiringAdjusters this1) T = Some lt" by blast
      have "a \<in> set lt"
      proof (cases "U = T")
        case True with l1 lt al show ?thesis by simp
      next
        case False
        with U have "is_ancestor U T" by simp
        with im l1 lt have "set (l @ suf) \<subseteq> set lt" unfolding inclusive_map_def by blast
        with al show ?thesis by auto
      qed
      then have inT: "a \<in> set (stored (wiringAdjusters this1) T)" using lt by (simp add: stored_def)
      from al l have "a \<in> pending_adjusters w"
        using adjusters_of_map_of unfolding pending_adjusters_def by blast
      with un have uw: "unresolved w a" unfolding all_unresolved_def by blast
      from gather_unresolved_cases[OF 1(1) uw] show ?thesis
      proof
        assume u1: "unresolved this1 a"
        with pend inT have "WiringAdjusterCall a ?ctx \<in> set after" by blast
        moreover have "WiringAdjusterCall a NoContext \<notin> set base"
        proof
          assume "WiringAdjusterCall a NoContext \<in> set base"
          from gather_calls(2)[OF 1(1) this] have "alreadySupplied this1 a" by simp
          with u1 show False by (simp add: unresolved_def alreadySupplied_iff)
        qed
        ultimately show ?thesis by blast
      next
        assume s1: "alreadySupplied this1 a"
        with gather_after_calls(2)[OF 1(1)] uw
        have "WiringAdjusterCall a NoContext \<in> set base" by blast
        moreover have "WiringAdjusterCall a ?ctx \<notin> set after" using form s1 by auto
        ultimately show ?thesis by blast
      qed
    qed
    have fl: "fst ` set (applied c) = set flattened"
      using applyContainerAdjusters_result[OF 1(4)] by simp
    from 1(1) have g1: "gatherWiringSuppliedByWiringAdjusters fuel env (clone w) '''' NoContext
          = Some (Inr (this1, base))" by simp
    show ?thesis
      using g1 1(5) 1(7) gather_calls(1)[OF 1(5)] form pend once 1(3) fl by blast
  qed
qed

lemma ensuing_not_called_again:
  assumes s: "alreadySupplied bean a"
    and cc: "createContainer fuel env bean T args = Some (Inr (c, calls))"
  shows "WiringAdjusterCall a ctx \<notin> set calls"
proof
  assume x: "WiringAdjusterCall a ctx \<in> set calls"
  from cc have p: "priv_createContainer fuel env bean T args = Some (Inr (c, calls))"
    by (simp add: createContainer_def split: if_splits)
  from p show False
  proof (cases rule: priv_createContainer_InrE)
    case (1 this1 base flattened after)
    from x 1(7) have "WiringAdjusterCall a ctx \<in> set base \<or> WiringAdjusterCall a ctx \<in> set after"
      by auto
    then show False
    proof
      assume "WiringAdjusterCall a ctx \<in> set base"
      from gather_calls(2)[OF 1(1) this] s show False by simp
    next
      assume "WiringAdjusterCall a ctx \<in> set after"
      from gather_calls(2)[OF 1(5) this] gather_calls(3)[OF 1(1) s] show False by simp
    qed
  qed
qed

lemma created_calls_resolved:
  assumes cc: "createContainer fuel env w T args = Some (Inr (c, calls))"
    and x: "WiringAdjusterCall a ctx \<in> set calls"
  shows "alreadySupplied (wiringBean c) a"
proof -
  from cc have p: "priv_createContainer fuel env w T args = Some (Inr (c, calls))"
    by (simp add: createContainer_def split: if_splits)
  from p show ?thesis
  proof (cases rule: priv_createContainer_InrE)
    case (1 this1 base flattened after)
    from x 1(7) have "WiringAdjusterCall a ctx \<in> set base \<or> WiringAdjusterCall a ctx \<in> set after"
      by auto
    then show ?thesis
    proof
      assume "WiringAdjusterCall a ctx \<in> set base"
      from gather_calls(2)[OF 1(1) this] have "alreadySupplied this1 a" by simp
      then show ?thesis by (rule gather_calls(3)[OF 1(5)])
    next
      assume "WiringAdjusterCall a ctx \<in> set after"
      from gather_calls(2)[OF 1(5) this] show ?thesis by simp
    qed
  qed
qed

subsection \<open>Order of application\<close>

text \<open>
  Claim C1. The container adjusters should be applied in the order of the inlined program,
  first copies only. A container of type \<^verbatim>\<open>A.B\<close> created from the module's own wiring gets the
  adjusters in that order, 1, 3, 2; created from a builder to which the module's wiring was
  added, it gets 1, 2, 3, although the inlined program is the same.
\<close>

theorem addWiring_changes_order:
  "created_from module_ops ''A.B'' = Some (Inr [1, 3, 2])
   \<and> spec_apply_order ''A.B'' module_ops = [1, 3, 2]
   \<and> spec_apply_order ''A.B'' [AddBuiltWiring module_ops] = [1, 3, 2]
   \<and> created_from [AddBuiltWiring module_ops] ''A.B'' = Some (Inr [1, 2, 3])"
  by code_simp

subsection \<open>Each container adjuster once\<close>

text \<open>
  Claim C2. A container adjuster registered for the created type should be called exactly
  once in a creation, also when it comes with the wiring supplied by a wiring adjuster
  that has been called. The base wiring adjuster 10 adds the wiring built after
  \<^verbatim>\<open>adjustBaseWiring(a11)\<close>, and wiring adjuster 11 adds the wiring built after
  \<^verbatim>\<open>adjustContainer('Test', a2)\<close>. A container of type \<^verbatim>\<open>Test\<close> created from the wiring built
  after \<^verbatim>\<open>adjustBaseWiring(a10)\<close> is created without error, both wiring adjusters are called
  and have their supplied wiring in the wiring bean, and container adjuster 2 is not
  called. When the outer builder has created the type \<^verbatim>\<open>Test\<close> itself, adjuster 2 is called.
\<close>

theorem nested_supplied_adjuster_not_called:
  "run_ops [AdjustBaseWiring 10] (WiringBuilder_new None) = Inr base_only_wiring
   \<and> run_ops [AdjustBaseWiring 11] (WiringBuilder_new None) = Inr inner_wiring
   \<and> run_ops [AdjustContainer ''Test'' 2] (WiringBuilder_new None) = Inr test_wiring
   \<and> createContainer 3 nested_env (build base_only_wiring) ''Test'' [5]
     = Some (Inr (\<lparr>ctype = ''Test'',
                    wiringBean =
                      Wiring 0 [('''', [10]), (''.Test'', [10])] [('''', []), (''Test'', [])]
                        [(10, Some (Wiring 0 [('''', [11])] [] [])),
                         (11, Some (Wiring 0 [(''.Test'', [2]), ('''', [])] [] []))],
                    applied = []\<rparr>,
                  [WiringAdjusterCall 10 NoContext, WiringAdjusterCall 11 NoContext,
                   RegisterWiringBean]))
   \<and> run_ops [AdjustContainer ''Test'' 1, AdjustBaseWiring 10] (WiringBuilder_new None)
     = Inr typed_outer_wiring
   \<and> applied_order (createContainer 3 nested_env (build typed_outer_wiring) ''Test'' [5])
     = Some (Inr [1, 2])"
  by code_simp

subsection \<open>The stored lists are complete\<close>

text \<open>
  Claim C3. The stored list of a container type that is referenced for the first time is
  a copy of the list of its nearest known ancestor (found by stripping trailing dot
  segments), or empty when no ancestor is known; a registration appends the adjuster to
  the list of the type and of every known descendant (the types that start with the type
  followed by a dot) and changes no other list. Hence the list of every known type holds
  the adjusters of the lists of all its known ancestors, and this is kept by the builder's
  construction, by \<^verbatim>\<open>adjustContainer\<close>, \<^verbatim>\<open>adjustBaseWiring\<close>, \<^verbatim>\<open>adjustWiringAfter\<close>,
  \<^verbatim>\<open>addWiring\<close>, \<^verbatim>\<open>build\<close> and by the expansion of wiring adjusters; it holds for every
  wiring of the definition phase.
\<close>

theorem stored_lists_stay_complete:
  "stored_lists_complete (WiringBuilder_new None)
   \<and> (stored_lists_complete w \<longrightarrow>
        stored_lists_complete (WiringBuilder_new (Some w)) \<and> stored_lists_complete (build w)
        \<and> (\<forall>b'. adjustContainer w T f = Inr b' \<longrightarrow> stored_lists_complete b'
              \<and> containerAdjusters b' = addAdjuster (containerAdjusters w) (''.'' @ T) f)
        \<and> (\<forall>b'. adjustBaseWiring w f = Inr b' \<longrightarrow> stored_lists_complete b'
              \<and> containerAdjusters b' = addAdjuster (containerAdjusters w) '''' f)
        \<and> (\<forall>b'. adjustWiringAfter w T f = Inr b' \<longrightarrow> stored_lists_complete b'
              \<and> containerAdjusters b' =
                  addAdjuster (ensureContainerTypeExists (containerAdjusters w) (''.'' @ T)) '''' f)
        \<and> (\<forall>other b'. stored_lists_complete other \<longrightarrow> addWiring w other = Inr b'
              \<longrightarrow> stored_lists_complete b')
        \<and> (\<forall>n env arg w' calls.
              gatherWiringSuppliedByWiringAdjusters n env w T arg = Some (Inr (w', calls))
              \<longrightarrow> stored_lists_complete w'))
   \<and> (definition_phase w \<longrightarrow> stored_lists_complete w)
   \<and> (map_of c T = None \<longrightarrow>
        ensureContainerTypeExists c T =
          c @ [(T, case nearest_known_ancestor c T of None \<Rightarrow> [] | Some A \<Rightarrow> stored c A)])
   \<and> (map_of c T \<noteq> None \<longrightarrow> ensureContainerTypeExists c T = c)
   \<and> (\<forall>X. map_of (addAdjuster c T f) X =
          (if X = T then Some (stored (ensureContainerTypeExists c T) T @ [f])
           else if is_ancestor T X then map_option (\<lambda>l. l @ [f]) (map_of c X)
           else map_of c X))"
proof (intro conjI impI allI)
  show "stored_lists_complete (WiringBuilder_new None)" by (simp add: WiringBuilder_new_def)
next
  assume w: "stored_lists_complete w"
  show "stored_lists_complete (WiringBuilder_new (Some w))" using w by (simp add: WiringBuilder_new_def)
  show "stored_lists_complete (build w)" using w by (simp add: build_def)
  { fix b' assume "adjustContainer w T f = Inr b'"
    then have b': "b' = priv_adjustContainer w T f" by (auto simp: adjustContainer_def split: if_splits)
    show "stored_lists_complete b'" unfolding b' using w by (rule complete_adjustContainer)
    show "containerAdjusters b' = addAdjuster (containerAdjusters w) (''.'' @ T) f"
      unfolding b' by (simp add: priv_adjustContainer_def) }
  { fix b' assume "adjustBaseWiring w f = Inr b'"
    then have b': "b' = priv_adjustWiringAfter w '''' f"
      by (auto simp: adjustBaseWiring_def priv_adjustBaseWiring_def)
    show "stored_lists_complete b'" unfolding b' using w by (rule complete_adjustWiringAfter)
    show "containerAdjusters b' = addAdjuster (containerAdjusters w) '''' f"
      unfolding b' by (simp add: priv_adjustWiringAfter_def) }
  { fix b' assume a: "adjustWiringAfter w T f = Inr b'"
    then have v: "isValidContainerType T" by (auto simp: adjustWiringAfter_def split: if_splits)
    from a have b': "b' = priv_adjustWiringAfter w T f"
      by (auto simp: adjustWiringAfter_def split: if_splits)
    show "stored_lists_complete b'" unfolding b' using w by (rule complete_adjustWiringAfter)
    have "T \<noteq> ''''" using v by (auto simp: isValidContainerType_def)
    then show "containerAdjusters b' =
        addAdjuster (ensureContainerTypeExists (containerAdjusters w) (''.'' @ T)) '''' f"
      unfolding b' by (simp add: priv_adjustWiringAfter_def) }
  { fix other b' assume "stored_lists_complete other" "addWiring w other = Inr b'"
    then show "stored_lists_complete b'"
      using w by (auto simp: addWiring_def complete_addWiring) }
  { fix n env arg w' calls
    assume "gatherWiringSuppliedByWiringAdjusters n env w T arg = Some (Inr (w', calls))"
    then show "stored_lists_complete w'" using w by (rule complete_gather) }
next
  assume "definition_phase w"
  then show "stored_lists_complete w" by (rule definition_phase_complete)
next
  assume "map_of c T = None"
  then show "ensureContainerTypeExists c T =
      c @ [(T, case nearest_known_ancestor c T of None \<Rightarrow> [] | Some A \<Rightarrow> stored c A)]"
    by (simp add: ensureContainerTypeExists_def getAncestorAdjusters_nearest)
next
  assume "map_of c T \<noteq> None"
  then show "ensureContainerTypeExists c T = c" by (simp add: ensureContainerTypeExists_def)
next
  fix X
  show "map_of (addAdjuster c T f) X =
          (if X = T then Some (stored (ensureContainerTypeExists c T) T @ [f])
           else if is_ancestor T X then map_option (\<lambda>l. l @ [f]) (map_of c X)
           else map_of c X)"
    by (auto simp: map_of_addAdjuster stored_def map_of_ensureContainerTypeExists
        split: option.splits)
qed

lemma module_wiring_phase: "definition_phase module_wiring"
proof -
  have 1: "adjustContainer (WiringBuilder_new None) ''A'' 1
      = Inr (Wiring 0 [(''.A'', [1])] [(''A'', [])] [])" by code_simp
  have 2: "adjustContainer (Wiring 0 [(''.A'', [1])] [(''A'', [])] []) ''A.B'' 3
      = Inr (Wiring 0 [(''.A'', [1]), (''.A.B'', [1, 3])] [(''A'', []), (''A.B'', [])] [])"
    by code_simp
  have 3: "adjustContainer
      (Wiring 0 [(''.A'', [1]), (''.A.B'', [1, 3])] [(''A'', []), (''A.B'', [])] []) ''A'' 2
      = Inr module_wiring" by code_simp
  show ?thesis
    by (rule after_adjustContainer[OF after_adjustContainer[OF
          after_adjustContainer[OF new_builder 1] 2] 3])
qed

lemma module_wiring_facts:
  "adjustContainer module_wiring ''A'' 4
     = Inr (Wiring 0 [(''.A'', [1, 2, 4]), (''.A.B'', [1, 3, 2, 4])] [(''A'', []), (''A.B'', [])] [])"
  "map_of (containerAdjusters module_wiring) ''.A.B.C'' = None"
  "nearest_known_ancestor (containerAdjusters module_wiring) ''.A.B.C'' = Some ''.A.B''"
  "stored (containerAdjusters module_wiring) ''.A.B'' = [1, 3, 2]"
  by code_simp+

theorem stored_lists_stay_complete_witness:
  "definition_phase module_wiring
   \<and> stored_lists_complete module_wiring
   \<and> adjustContainer module_wiring ''A'' 4
     = Inr (Wiring 0 [(''.A'', [1, 2, 4]), (''.A.B'', [1, 3, 2, 4])] [(''A'', []), (''A.B'', [])] [])
   \<and> stored_lists_complete
       (Wiring 0 [(''.A'', [1, 2, 4]), (''.A.B'', [1, 3, 2, 4])] [(''A'', []), (''A.B'', [])] [])
   \<and> map_of (containerAdjusters module_wiring) ''.A.B.C'' = None
   \<and> ensureContainerTypeExists (containerAdjusters module_wiring) ''.A.B.C''
     = containerAdjusters module_wiring @ [(''.A.B.C'', [1, 3, 2])]"
proof -
  note phase = stored_lists_stay_complete[THEN conjunct2, THEN conjunct2, THEN conjunct1,
      rule_format]
  have c: "stored_lists_complete module_wiring"
    using module_wiring_phase by (rule phase)
  note block = stored_lists_stay_complete[THEN conjunct2, THEN conjunct1, rule_format, OF c]
  note reg = block[THEN conjunct2, THEN conjunct2, THEN conjunct1, rule_format,
      OF module_wiring_facts(1)]
  have c4: "stored_lists_complete
       (Wiring 0 [(''.A'', [1, 2, 4]), (''.A.B'', [1, 3, 2, 4])] [(''A'', []), (''A.B'', [])] [])"
    using reg by (rule conjunct1)
  note seed = stored_lists_stay_complete[THEN conjunct2, THEN conjunct2, THEN conjunct2,
      THEN conjunct1, rule_format, OF module_wiring_facts(2)]
  have e: "ensureContainerTypeExists (containerAdjusters module_wiring) ''.A.B.C''
     = containerAdjusters module_wiring @ [(''.A.B.C'', [1, 3, 2])]"
    using seed module_wiring_facts(3,4) by simp
  show ?thesis using module_wiring_phase c module_wiring_facts(1,2) c4 e by simp
qed

subsection \<open>Adding a wiring\<close>

text \<open>
  Claim C7, as stated, has \<^verbatim>\<open>addWiring\<close> skip the adjusters that a list already holds.
  Adding to a builder with adjuster 1 for \<^verbatim>\<open>A\<close> the wiring built from the same registration
  leaves the list of \<^verbatim>\<open>A\<close> with two copies of adjuster 1.
\<close>

theorem addWiring_keeps_duplicates:
  "addWiring single_wiring (build single_wiring) = Inr (Wiring 0 [(''.A'', [1, 1])] [(''A'', [])] [])
   \<and> distinct (stored (containerAdjusters single_wiring) ''.A'')
   \<and> \<not> distinct (stored (containerAdjusters (Wiring 0 [(''.A'', [1, 1])] [(''A'', [])] [])) ''.A'')"
  by code_simp

text \<open>
  Claim C7, amended. \<^verbatim>\<open>addWiring\<close> changes the builder only. Afterwards the builder knows
  the container types known to either side; for every type known to the added wiring, the
  builder's list ends with the whole list of the added wiring, duplicates included,
  preceded by the builder's former list or, for a type new to the builder, by a seed that
  is empty or the beginning of the list of one of its ancestors; every former list of the
  builder is the beginning of the new one. The same holds for the lists of wiring
  adjusters, and the wiring adjusters of the added wiring become keys of the builder's map
  of supplied wiring unless they are keys already. Importing a wiring when the builder is
  constructed gives the builder a copy of it.
\<close>

theorem addWiring_appends:
  assumes "distinct (map fst (containerAdjusters other))"
    and "distinct (map fst (wiringAdjusters other))"
    and "addWiring builder other = Inr builder'"
  shows "set (map fst (containerAdjusters builder'))
           = set (map fst (containerAdjusters builder)) \<union> set (map fst (containerAdjusters other))
    \<and> (\<forall>T l. map_of (containerAdjusters other) T = Some l \<longrightarrow>
          (\<exists>pre. map_of (containerAdjusters builder') T = Some (pre @ l)
             \<and> (\<forall>l0. map_of (containerAdjusters builder) T = Some l0 \<longrightarrow> pre = l0)
             \<and> (map_of (containerAdjusters builder) T = None \<longrightarrow> pre = []
                \<or> (\<exists>A lA. is_ancestor A T \<and> map_of (containerAdjusters builder') A = Some lA
                      \<and> prefix pre lA))))
    \<and> (\<forall>T l0. map_of (containerAdjusters builder) T = Some l0 \<longrightarrow>
          (\<exists>suf. map_of (containerAdjusters builder') T = Some (l0 @ suf)))
    \<and> set (map fst (wiringAdjusters builder'))
           = set (map fst (wiringAdjusters builder)) \<union> set (map fst (wiringAdjusters other))
    \<and> (\<forall>T l. map_of (wiringAdjusters other) T = Some l \<longrightarrow>
          (\<exists>pre. map_of (wiringAdjusters builder') T = Some (pre @ l)
             \<and> (\<forall>l0. map_of (wiringAdjusters builder) T = Some l0 \<longrightarrow> pre = l0)
             \<and> (map_of (wiringAdjusters builder) T = None \<longrightarrow> pre = []
                \<or> (\<exists>A lA. is_ancestor A T \<and> map_of (wiringAdjusters builder') A = Some lA
                      \<and> prefix pre lA))))
    \<and> (\<forall>T l0. map_of (wiringAdjusters builder) T = Some l0 \<longrightarrow>
          (\<exists>suf. map_of (wiringAdjusters builder') T = Some (l0 @ suf)))
    \<and> (\<forall>a. map_of (wiringSuppliedByWiringAdjusters builder') a =
          (case map_of (wiringSuppliedByWiringAdjusters builder) a of
             Some v \<Rightarrow> Some v
           | None \<Rightarrow> map_of (wiringSuppliedByWiringAdjusters other) a))
    \<and> WiringBuilder_new (Some other) = other"
proof -
  from assms(3) have b': "builder' = priv_addWiring builder other" by (simp add: addWiring_def)
  have cA: "containerAdjusters builder'
      = addAdjusters (containerAdjusters builder) (containerAdjusters other)"
    and wA: "wiringAdjusters builder'
      = addAdjusters (wiringAdjusters builder) (wiringAdjusters other)"
    and sup: "wiringSuppliedByWiringAdjusters builder'
      = addSuppliedWiring_map (wiringSuppliedByWiringAdjusters builder)
          (wiringSuppliedByWiringAdjusters other)"
    unfolding b' by (simp_all add: priv_addWiring_def)
  note c = addAdjusters_merge[OF assms(1), where d = "containerAdjusters builder"]
  note w = addAdjusters_merge[OF assms(2), where d = "wiringAdjusters builder"]
  show ?thesis
    unfolding cA wA sup
  proof (intro conjI allI impI)
    show "set (map fst (addAdjusters (containerAdjusters builder) (containerAdjusters other)))
        = set (map fst (containerAdjusters builder)) \<union> set (map fst (containerAdjusters other))"
      by (rule c(1))
    show "set (map fst (addAdjusters (wiringAdjusters builder) (wiringAdjusters other)))
        = set (map fst (wiringAdjusters builder)) \<union> set (map fst (wiringAdjusters other))"
      by (rule w(1))
    show "WiringBuilder_new (Some other) = other" by (simp add: WiringBuilder_new_def)
  next
    fix T l assume "map_of (containerAdjusters other) T = Some l"
    then show "\<exists>pre. map_of (addAdjusters (containerAdjusters builder) (containerAdjusters other)) T
          = Some (pre @ l)
        \<and> (\<forall>l0. map_of (containerAdjusters builder) T = Some l0 \<longrightarrow> pre = l0)
        \<and> (map_of (containerAdjusters builder) T = None \<longrightarrow> pre = []
            \<or> (\<exists>A lA. is_ancestor A T
                  \<and> map_of (addAdjusters (containerAdjusters builder) (containerAdjusters other)) A
                      = Some lA
                  \<and> prefix pre lA))"
      by (rule c(2))
  next
    fix T l0 assume "map_of (containerAdjusters builder) T = Some l0"
    then show "\<exists>suf. map_of (addAdjusters (containerAdjusters builder) (containerAdjusters other)) T
        = Some (l0 @ suf)" by (rule c(3))
  next
    fix T l assume "map_of (wiringAdjusters other) T = Some l"
    then show "\<exists>pre. map_of (addAdjusters (wiringAdjusters builder) (wiringAdjusters other)) T
          = Some (pre @ l)
        \<and> (\<forall>l0. map_of (wiringAdjusters builder) T = Some l0 \<longrightarrow> pre = l0)
        \<and> (map_of (wiringAdjusters builder) T = None \<longrightarrow> pre = []
            \<or> (\<exists>A lA. is_ancestor A T
                  \<and> map_of (addAdjusters (wiringAdjusters builder) (wiringAdjusters other)) A
                      = Some lA
                  \<and> prefix pre lA))"
      by (rule w(2))
  next
    fix T l0 assume "map_of (wiringAdjusters builder) T = Some l0"
    then show "\<exists>suf. map_of (addAdjusters (wiringAdjusters builder) (wiringAdjusters other)) T
        = Some (l0 @ suf)" by (rule w(3))
  next
    fix a
    show "map_of (addSuppliedWiring_map (wiringSuppliedByWiringAdjusters builder)
          (wiringSuppliedByWiringAdjusters other)) a =
          (case map_of (wiringSuppliedByWiringAdjusters builder) a of
             Some v \<Rightarrow> Some v
           | None \<Rightarrow> map_of (wiringSuppliedByWiringAdjusters other) a)"
      by (rule map_of_addSuppliedWiring_map)
  qed
qed

theorem addWiring_appends_witness:
  "distinct (map fst (containerAdjusters module_wiring))
   \<and> distinct (map fst (wiringAdjusters module_wiring))
   \<and> addWiring single_wiring module_wiring
       = Inr (Wiring 0 [(''.A'', [1, 1, 2]), (''.A.B'', [1, 1, 2, 1, 3, 2])]
                [(''A'', []), (''A.B'', [])] [])
   \<and> set (map fst (containerAdjusters
         (Wiring 0 [(''.A'', [1, 1, 2]), (''.A.B'', [1, 1, 2, 1, 3, 2])]
                [(''A'', []), (''A.B'', [])] [])))
       = set (map fst (containerAdjusters single_wiring))
           \<union> set (map fst (containerAdjusters module_wiring))
   \<and> WiringBuilder_new (Some module_wiring) = module_wiring"
proof -
  have d: "distinct (map fst (containerAdjusters module_wiring))"
    "distinct (map fst (wiringAdjusters module_wiring))" by code_simp+
  have a: "addWiring single_wiring module_wiring
       = Inr (Wiring 0 [(''.A'', [1, 1, 2]), (''.A.B'', [1, 1, 2, 1, 3, 2])]
                [(''A'', []), (''A.B'', [])] [])" by code_simp
  note t = addWiring_appends[OF d a]
  show ?thesis using d a t[THEN conjunct1] t[THEN conjunct2, THEN conjunct2, THEN conjunct2,
      THEN conjunct2, THEN conjunct2, THEN conjunct2, THEN conjunct2] by simp
qed

subsection \<open>The expansion loop calls each wiring adjuster once and ends\<close>

text \<open>
  Claim C9. An expansion that returns has called no wiring adjuster twice, has called only
  adjusters that had no supplied wiring before, and leaves each of them with supplied wiring,
  so that no later expansion on the resulting wiring calls it again; supplied wiring is
  never taken away. If all wiring adjusters pending in the wiring or in any wiring supplied
  through the callback come from one finite set, the expansion returns for every sufficient
  amount of fuel, although the pending list may grow while it is consumed. The witness is
  a wiring adjuster whose supplied wiring registers the adjuster itself.
\<close>

theorem expansion_calls_once_and_ends:
  "(\<forall>n env w T arg w' calls.
      gatherWiringSuppliedByWiringAdjusters n env w T arg = Some (Inr (w', calls)) \<longrightarrow>
        distinct calls
        \<and> (\<forall>x \<in> set calls. \<exists>a. x = WiringAdjusterCall a arg
               \<and> \<not> alreadySupplied w a \<and> alreadySupplied w' a)
        \<and> (\<forall>a. alreadySupplied w a \<longrightarrow> alreadySupplied w' a)
        \<and> (\<forall>n' T' arg' w'' calls' a.
              gatherWiringSuppliedByWiringAdjusters n' env w' T' arg' = Some (Inr (w'', calls'))
              \<longrightarrow> WiringAdjusterCall a arg \<in> set calls
              \<longrightarrow> WiringAdjusterCall a arg' \<notin> set calls'))
   \<and> (\<forall>S env w T arg.
        finite S \<longrightarrow> supplies_within env S \<longrightarrow> pending_adjusters w \<subseteq> S \<longrightarrow>
          (\<exists>n r. \<forall>m \<ge> n. gatherWiringSuppliedByWiringAdjusters m env w T arg = Some r))"
proof (intro conjI allI impI)
  fix n env w T arg w' calls
  assume g: "gatherWiringSuppliedByWiringAdjusters n env w T arg = Some (Inr (w', calls))"
  show "distinct calls" using gather_calls(1)[OF g] .
  show "\<forall>x \<in> set calls. \<exists>a. x = WiringAdjusterCall a arg
               \<and> \<not> alreadySupplied w a \<and> alreadySupplied w' a"
    using gather_calls(2)[OF g] by blast
  { fix a assume "alreadySupplied w a"
    then show "alreadySupplied w' a" using gather_calls(3)[OF g] by blast }
  { fix n' T' arg' w'' calls' a
    assume g': "gatherWiringSuppliedByWiringAdjusters n' env w' T' arg' = Some (Inr (w'', calls'))"
      and a: "WiringAdjusterCall a arg \<in> set calls"
    from gather_calls(2)[OF g a] have "alreadySupplied w' a" by auto
    moreover have "\<not> alreadySupplied w' a" if "WiringAdjusterCall a arg' \<in> set calls'"
      using gather_calls(2)[OF g' that] by auto
    ultimately show "WiringAdjusterCall a arg' \<notin> set calls'" by blast }
next
  fix S :: "adjuster set" and env w T arg
  assume "finite S" "supplies_within env S" "pending_adjusters w \<subseteq> S"
  then show "\<exists>n r. \<forall>m \<ge> n. gatherWiringSuppliedByWiringAdjusters m env w T arg = Some r"
    by (rule gather_terminates)
qed

lemma self_run:
  "gatherWiringSuppliedByWiringAdjusters 3 self_env self_wiring '''' NoContext
     = Some (Inr (self_expanded, [WiringAdjusterCall 10 NoContext]))"
  by code_simp

lemma self_bounds: "supplies_within self_env {10}" "pending_adjusters self_wiring \<subseteq> {10}"
  by (auto simp: supplies_within_def self_env_def pending_adjusters_def adjusters_of_def
      self_wiring_def)

theorem expansion_calls_once_and_ends_witness:
  "gatherWiringSuppliedByWiringAdjusters 3 self_env self_wiring '''' NoContext
     = Some (Inr (self_expanded, [WiringAdjusterCall 10 NoContext]))
   \<and> \<not> alreadySupplied self_wiring 10 \<and> alreadySupplied self_expanded 10
   \<and> gatherWiringSuppliedByWiringAdjusters 3 self_env self_expanded '''' NoContext
     = Some (Inr (self_expanded, []))
   \<and> finite {10 :: adjuster} \<and> supplies_within self_env {10}
   \<and> pending_adjusters self_wiring \<subseteq> {10}
   \<and> (\<exists>n r. \<forall>m \<ge> n.
        gatherWiringSuppliedByWiringAdjusters m self_env self_wiring '''' NoContext = Some r)"
proof -
  have again: "gatherWiringSuppliedByWiringAdjusters 3 self_env self_expanded '''' NoContext
     = Some (Inr (self_expanded, []))" by code_simp
  note once = expansion_calls_once_and_ends[THEN conjunct1, rule_format, OF self_run]
  from once[THEN conjunct2, THEN conjunct1, rule_format, of "WiringAdjusterCall 10 NoContext"]
  have 1: "\<not> alreadySupplied self_wiring 10" "alreadySupplied self_expanded 10" by auto
  have fin: "finite {10 :: adjuster}" by simp
  note ends = expansion_calls_once_and_ends[THEN conjunct2, rule_format, OF fin self_bounds]
  show ?thesis
    using self_run again 1 fin self_bounds ends[of "''''" NoContext] by simp
qed

subsection \<open>The wiring bean\<close>

text \<open>
  Claim C10, as stated, has the wiring bean registered before any adjuster runs. The base
  wiring adjusters run first: a container of type \<^verbatim>\<open>Test\<close> created from the wiring whose
  only registration is the base wiring adjuster 10 has wiring adjuster 10 called before
  the bean is registered.
\<close>

theorem base_wiring_adjuster_runs_before_bean:
  "createContainer 2 supplying_env base_only_wiring ''Test'' [5]
     = Some (Inr (\<lparr>ctype = ''Test'', wiringBean = base_expanded_wiring, applied = [(2, [5])]\<rparr>,
                  [WiringAdjusterCall 10 NoContext, RegisterWiringBean, ContainerAdjusterCall 2 [5]]))
   \<and> \<not> bean_registered_first
         [WiringAdjusterCall 10 NoContext, RegisterWiringBean, ContainerAdjusterCall 2 [5]]"
  by code_simp

text \<open>
  Claim C10, amended. A created container holds, as its wiring bean, the wiring obtained
  from the clone of the wiring on which the creation was called by the two expansions of
  that creation, and this wiring has the class of the original; the bean is registered
  after the base wiring adjusters have run and before any container adjuster and any
  after-creation wiring adjuster is called. The same holds for a container made by a
  factory. The class is kept by the builder's import, by every builder call, by
  \<^verbatim>\<open>build\<close> and by cloning.
\<close>

theorem wiring_bean_is_working_clone:
  "wclass (WiringBuilder_new (Some w)) = wclass w
   \<and> wclass (build w) = wclass w
   \<and> wclass (clone w) = wclass w
   \<and> (\<forall>ops b'. run_ops ops w = Inr b' \<longrightarrow> wclass b' = wclass w)
   \<and> (\<forall>c calls. createContainer fuel env w T args = Some (Inr (c, calls)) \<longrightarrow>
         wclass (wiringBean c) = wclass w \<and> ctype c = T
         \<and> (\<exists>this1 base after.
               gatherWiringSuppliedByWiringAdjusters fuel env (clone w) '''' NoContext
                 = Some (Inr (this1, base))
             \<and> gatherWiringSuppliedByWiringAdjusters fuel env this1 T (Created T (applied c))
                 = Some (Inr (wiringBean c, after))
             \<and> calls = base @ RegisterWiringBean
                 # map (\<lambda>(a, args). ContainerAdjusterCall a args) (applied c) @ after
             \<and> (\<forall>x \<in> set base. \<exists>a. x = WiringAdjusterCall a NoContext)
             \<and> (\<forall>x \<in> set after. \<exists>a. x = WiringAdjusterCall a (Created T (applied c)))))
   \<and> (\<forall>f calls0 fuel' callerArgs c calls.
         createContainerFactory fuel env w T args = Some (Inr (f, calls0)) \<longrightarrow>
         callFactory fuel' env f callerArgs = Some (Inr (c, calls)) \<longrightarrow>
         wclass (wiringBean c) = wclass w \<and> ctype c = T
         \<and> (\<exists>this1 base after.
               gatherWiringSuppliedByWiringAdjusters fuel' env (clone (fwiring f)) '''' NoContext
                 = Some (Inr (this1, base))
             \<and> gatherWiringSuppliedByWiringAdjusters fuel' env this1 T (Created T (applied c))
                 = Some (Inr (wiringBean c, after))
             \<and> calls = base @ RegisterWiringBean
                 # map (\<lambda>(a, args). ContainerAdjusterCall a args) (applied c) @ after
             \<and> (\<forall>x \<in> set base. \<exists>a. x = WiringAdjusterCall a NoContext)
             \<and> (\<forall>x \<in> set after. \<exists>a. x = WiringAdjusterCall a (Created T (applied c)))))"
proof (intro conjI allI impI)
  show "wclass (WiringBuilder_new (Some w)) = wclass w" by (simp add: WiringBuilder_new_def)
  show "wclass (build w) = wclass w" by (simp add: build_def)
  show "wclass (clone w) = wclass w" by simp
next
  fix ops b' assume "run_ops ops w = Inr b'"
  then show "wclass b' = wclass w" by (rule run_ops_class(2))
next
  fix c calls
  assume cc: "createContainer fuel env w T args = Some (Inr (c, calls))"
  then have p: "priv_createContainer fuel env (clone w) T args = Some (Inr (c, calls))"
    by (simp add: createContainer_def split: if_splits)
  note b = priv_createContainer_bean[OF p]
  show "wclass (wiringBean c) = wclass w" using b by simp
  show "ctype c = T" using b by simp
  show "\<exists>this1 base after.
               gatherWiringSuppliedByWiringAdjusters fuel env (clone w) '''' NoContext
                 = Some (Inr (this1, base))
             \<and> gatherWiringSuppliedByWiringAdjusters fuel env this1 T (Created T (applied c))
                 = Some (Inr (wiringBean c, after))
             \<and> calls = base @ RegisterWiringBean
                 # map (\<lambda>(a, args). ContainerAdjusterCall a args) (applied c) @ after
             \<and> (\<forall>x \<in> set base. \<exists>a. x = WiringAdjusterCall a NoContext)
             \<and> (\<forall>x \<in> set after. \<exists>a. x = WiringAdjusterCall a (Created T (applied c)))"
    using b by blast
next
  fix f calls0 fuel' callerArgs c calls
  assume cf: "createContainerFactory fuel env w T args = Some (Inr (f, calls0))"
    and call: "callFactory fuel' env f callerArgs = Some (Inr (c, calls))"
  from cf have pf: "priv_createContainerFactory fuel env (clone w) T args = Some (Inr (f, calls0))"
    by (simp add: createContainerFactory_def split: if_splits)
  then obtain this1 where
    g: "gatherWiringSuppliedByWiringAdjusters fuel env (clone w) '''' NoContext
          = Some (Inr (this1, calls0))"
    and f: "f = \<lparr>fwiring = this1, ftype = T, factoryArgs = args\<rparr>"
    unfolding priv_createContainerFactory_def
    by (cases "gatherWiringSuppliedByWiringAdjusters fuel env (clone w) '''' NoContext")
       (auto split: sum.splits if_splits)
  have fc: "wclass (fwiring f) = wclass w" "ftype f = T"
    using gather_class[OF g] f by simp_all
  from call have p: "priv_createContainer fuel' env (clone (fwiring f)) T
      (factoryArgs f @ callerArgs) = Some (Inr (c, calls))"
    using fc(2) by (simp add: callFactory_def)
  note b = priv_createContainer_bean[OF p]
  show "wclass (wiringBean c) = wclass w" using b fc by simp
  show "ctype c = T" using b by simp
  show "\<exists>this1 base after.
               gatherWiringSuppliedByWiringAdjusters fuel' env (clone (fwiring f)) '''' NoContext
                 = Some (Inr (this1, base))
             \<and> gatherWiringSuppliedByWiringAdjusters fuel' env this1 T (Created T (applied c))
                 = Some (Inr (wiringBean c, after))
             \<and> calls = base @ RegisterWiringBean
                 # map (\<lambda>(a, args). ContainerAdjusterCall a args) (applied c) @ after
             \<and> (\<forall>x \<in> set base. \<exists>a. x = WiringAdjusterCall a NoContext)
             \<and> (\<forall>x \<in> set after. \<exists>a. x = WiringAdjusterCall a (Created T (applied c)))"
    using b by blast
qed

lemma subclassed_created:
  "createContainer 1 quiet_env subclassed_wiring ''Test'' [5]
     = Some (Inr (\<lparr>ctype = ''Test'', wiringBean = subclassed_wiring, applied = [(1, [5])]\<rparr>,
                  [RegisterWiringBean, ContainerAdjusterCall 1 [5]]))"
  by code_simp

lemma subclassed_factory:
  "createContainerFactory 1 quiet_env subclassed_wiring ''Test'' [5]
     = Some (Inr (\<lparr>fwiring = subclassed_wiring, ftype = ''Test'', factoryArgs = [5]\<rparr>, []))"
  "callFactory 1 quiet_env \<lparr>fwiring = subclassed_wiring, ftype = ''Test'', factoryArgs = [5]\<rparr> [6]
     = Some (Inr (\<lparr>ctype = ''Test'', wiringBean = subclassed_wiring, applied = [(1, [5, 6])]\<rparr>,
                  [RegisterWiringBean, ContainerAdjusterCall 1 [5, 6]]))"
  by code_simp+

lemma subclassed_built:
  "run_ops [AdjustContainer ''Test'' 1] (WiringBuilder_new (Some (newWiring 7))) = Inr subclassed_wiring"
  by code_simp

lemma base_only_created:
  "createContainer 2 supplying_env base_only_wiring ''Test'' [5]
     = Some (Inr (\<lparr>ctype = ''Test'', wiringBean = base_expanded_wiring, applied = [(2, [5])]\<rparr>,
                  [WiringAdjusterCall 10 NoContext, RegisterWiringBean, ContainerAdjusterCall 2 [5]]))"
  by code_simp

lemma base_only_factory:
  "createContainerFactory 2 supplying_env base_only_wiring ''Test'' [5]
     = Some (Inr (\<lparr>fwiring = base_expanded_wiring, ftype = ''Test'', factoryArgs = [5]\<rparr>,
                  [WiringAdjusterCall 10 NoContext]))"
  "callFactory 2 supplying_env
       \<lparr>fwiring = base_expanded_wiring, ftype = ''Test'', factoryArgs = [5]\<rparr> [6]
     = Some (Inr (\<lparr>ctype = ''Test'', wiringBean = base_expanded_wiring, applied = [(2, [5, 6])]\<rparr>,
                  [RegisterWiringBean, ContainerAdjusterCall 2 [5, 6]]))"
  by code_simp+

lemma base_only_class: "wclass base_only_wiring = 0"
  by code_simp

theorem wiring_bean_is_working_clone_witness:
  "run_ops [AdjustContainer ''Test'' 1] (WiringBuilder_new (Some (newWiring 7)))
     = Inr subclassed_wiring
   \<and> wclass subclassed_wiring = 7
   \<and> createContainer 1 quiet_env subclassed_wiring ''Test'' [5]
     = Some (Inr (\<lparr>ctype = ''Test'', wiringBean = subclassed_wiring, applied = [(1, [5])]\<rparr>,
                  [RegisterWiringBean, ContainerAdjusterCall 1 [5]]))
   \<and> wclass (wiringBean \<lparr>ctype = ''Test'', wiringBean = subclassed_wiring,
        applied = [(1, [5])]\<rparr>) = 7
   \<and> createContainerFactory 1 quiet_env subclassed_wiring ''Test'' [5]
     = Some (Inr (\<lparr>fwiring = subclassed_wiring, ftype = ''Test'', factoryArgs = [5]\<rparr>, []))
   \<and> callFactory 1 quiet_env \<lparr>fwiring = subclassed_wiring, ftype = ''Test'', factoryArgs = [5]\<rparr> [6]
     = Some (Inr (\<lparr>ctype = ''Test'', wiringBean = subclassed_wiring, applied = [(1, [5, 6])]\<rparr>,
                  [RegisterWiringBean, ContainerAdjusterCall 1 [5, 6]]))
   \<and> wclass (wiringBean \<lparr>ctype = ''Test'', wiringBean = subclassed_wiring,
        applied = [(1, [5, 6])]\<rparr>) = 7
   \<and> createContainer 2 supplying_env base_only_wiring ''Test'' [5]
     = Some (Inr (\<lparr>ctype = ''Test'', wiringBean = base_expanded_wiring, applied = [(2, [5])]\<rparr>,
                  [WiringAdjusterCall 10 NoContext, RegisterWiringBean, ContainerAdjusterCall 2 [5]]))
   \<and> wclass (wiringBean \<lparr>ctype = ''Test'', wiringBean = base_expanded_wiring,
        applied = [(2, [5])]\<rparr>) = wclass base_only_wiring
   \<and> createContainerFactory 2 supplying_env base_only_wiring ''Test'' [5]
     = Some (Inr (\<lparr>fwiring = base_expanded_wiring, ftype = ''Test'', factoryArgs = [5]\<rparr>,
                  [WiringAdjusterCall 10 NoContext]))
   \<and> callFactory 2 supplying_env
       \<lparr>fwiring = base_expanded_wiring, ftype = ''Test'', factoryArgs = [5]\<rparr> [6]
     = Some (Inr (\<lparr>ctype = ''Test'', wiringBean = base_expanded_wiring, applied = [(2, [5, 6])]\<rparr>,
                  [RegisterWiringBean, ContainerAdjusterCall 2 [5, 6]]))
   \<and> wclass (wiringBean \<lparr>ctype = ''Test'', wiringBean = base_expanded_wiring,
        applied = [(2, [5, 6])]\<rparr>) = wclass base_only_wiring"
proof -
  have c7: "wclass (WiringBuilder_new (Some (newWiring 7))) = 7"
    using wiring_bean_is_working_clone[of "newWiring 7"] by simp
  from wiring_bean_is_working_clone[of "WiringBuilder_new (Some (newWiring 7))"] subclassed_built
  have cls: "wclass subclassed_wiring = 7" using c7 by metis
  note u = wiring_bean_is_working_clone[of subclassed_wiring 1 quiet_env "''Test''" "[5]"]
  from u subclassed_created
  have 1: "wclass (wiringBean \<lparr>ctype = ''Test'', wiringBean = subclassed_wiring,
        applied = [(1, [5])]\<rparr>) = 7" using cls by metis
  from u subclassed_factory
  have 2: "wclass (wiringBean \<lparr>ctype = ''Test'', wiringBean = subclassed_wiring,
        applied = [(1, [5, 6])]\<rparr>) = 7" using cls by metis
  note v = wiring_bean_is_working_clone[of base_only_wiring 2 supplying_env "''Test''" "[5]"]
  note vc = v[THEN conjunct2, THEN conjunct2, THEN conjunct2, THEN conjunct2, THEN conjunct1,
      rule_format, OF base_only_created]
  have 3: "wclass (wiringBean \<lparr>ctype = ''Test'', wiringBean = base_expanded_wiring,
        applied = [(2, [5])]\<rparr>) = wclass base_only_wiring"
    using vc by (rule conjunct1)
  note vf = v[THEN conjunct2, THEN conjunct2, THEN conjunct2, THEN conjunct2, THEN conjunct2,
      rule_format, OF base_only_factory]
  have 4: "wclass (wiringBean \<lparr>ctype = ''Test'', wiringBean = base_expanded_wiring,
        applied = [(2, [5, 6])]\<rparr>) = wclass base_only_wiring"
    using vf by (rule conjunct1)
  show ?thesis
    using subclassed_built cls subclassed_created 1 subclassed_factory 2
      base_only_created 3 base_only_factory 4
    by (intro conjI)
qed

subsection \<open>The unknown-type error\<close>

text \<open>
  Claim C6, as stated, lets no creation fail with the unknown-type error for a type that is
  an ancestor or a descendant of a registered type. After \<^verbatim>\<open>adjustContainer('A.B', a1)\<close> alone,
  creating a container or a factory for the ancestor \<^verbatim>\<open>A\<close> or for the descendant \<^verbatim>\<open>A.B.C\<close>
  fails with that error.
\<close>

theorem relatives_of_registered_type_are_unknown:
  "run_ops [AdjustContainer ''A.B'' 1] (WiringBuilder_new None) = Inr ab_wiring
   \<and> isValidContainerType ''A'' \<and> is_ancestor ''A'' ''A.B''
   \<and> createContainer 1 quiet_env (build ab_wiring) ''A'' [] = Some (Inl RangeError)
   \<and> createContainerFactory 1 quiet_env (build ab_wiring) ''A'' [] = Some (Inl RangeError)
   \<and> isValidContainerType ''A.B.C'' \<and> is_ancestor ''A.B'' ''A.B.C''
   \<and> createContainer 1 quiet_env (build ab_wiring) ''A.B.C'' [] = Some (Inl RangeError)
   \<and> createContainerFactory 1 quiet_env (build ab_wiring) ''A.B.C'' [] = Some (Inl RangeError)"
  by code_simp

text \<open>
  Claim C6, amended. For a valid type, \<^verbatim>\<open>createContainer\<close> and \<^verbatim>\<open>createContainerFactory\<close>
  fail with the unknown-type error exactly when the expansion of the pending base wiring
  adjusters returns a working wiring that has no list for the type. A type that the wiring
  knows is never rejected this way, and a type is known once \<^verbatim>\<open>adjustContainer\<close> or
  \<^verbatim>\<open>adjustWiringAfter\<close> has been called for it; nor is a type rejected that a wiring supplied
  by a base wiring adjuster called in that expansion knows. Being a relative of a known
  type does not make a type known.
\<close>

theorem not_found_iff_unknown_after_base_expansion:
  "(createContainer fuel env w T args = Some (Inl RangeError) \<longleftrightarrow>
      isValidContainerType T
      \<and> (\<exists>w1 base. gatherWiringSuppliedByWiringAdjusters fuel env (clone w) '''' NoContext
              = Some (Inr (w1, base))
            \<and> map_of (containerAdjusters w1) (''.'' @ T) = None))
   \<and> (createContainerFactory fuel env w T args = Some (Inl RangeError) \<longleftrightarrow>
      isValidContainerType T
      \<and> (\<exists>w1 base. gatherWiringSuppliedByWiringAdjusters fuel env (clone w) '''' NoContext
              = Some (Inr (w1, base))
            \<and> map_of (containerAdjusters w1) (''.'' @ T) = None))
   \<and> (map_of (containerAdjusters w) (''.'' @ T) \<noteq> None \<longrightarrow>
        createContainer fuel env w T args \<noteq> Some (Inl RangeError)
        \<and> createContainerFactory fuel env w T args \<noteq> Some (Inl RangeError))
   \<and> (\<forall>f b'. adjustContainer w T f = Inr b' \<or> adjustWiringAfter w T f = Inr b' \<longrightarrow>
        map_of (containerAdjusters (build b')) (''.'' @ T) \<noteq> None)
   \<and> (\<forall>w1 base a x.
        gatherWiringSuppliedByWiringAdjusters fuel env (clone w) '''' NoContext
          = Some (Inr (w1, base)) \<longrightarrow>
        WiringAdjusterCall a NoContext \<in> set base \<longrightarrow>
        AddWiring x \<in> set (wiringAdjusterCalls env a NoContext) \<longrightarrow>
        map_of (containerAdjusters x) (''.'' @ T) \<noteq> None \<longrightarrow>
          createContainer fuel env w T args \<noteq> Some (Inl RangeError)
          \<and> createContainerFactory fuel env w T args \<noteq> Some (Inl RangeError))"
proof -
  let ?unknown = "\<exists>w1 base. gatherWiringSuppliedByWiringAdjusters fuel env (clone w) '''' NoContext
              = Some (Inr (w1, base))
            \<and> map_of (containerAdjusters w1) (''.'' @ T) = None"
  have cc: "createContainer fuel env w T args = Some (Inl RangeError) \<longleftrightarrow>
      isValidContainerType T \<and> ?unknown"
    unfolding createContainer_def
    using priv_createContainer_RangeError[of fuel env "clone w" T args] by auto
  have cf: "createContainerFactory fuel env w T args = Some (Inl RangeError) \<longleftrightarrow>
      isValidContainerType T \<and> ?unknown"
    unfolding createContainerFactory_def
    using priv_createContainerFactory_RangeError[of fuel env "clone w" T args] by auto
  have known: "\<not> ?unknown" if "map_of (containerAdjusters w) (''.'' @ T) \<noteq> None"
  proof
    assume ?unknown
    then obtain w1 base where
      g: "gatherWiringSuppliedByWiringAdjusters fuel env (clone w) '''' NoContext
              = Some (Inr (w1, base))"
      and u: "map_of (containerAdjusters w1) (''.'' @ T) = None" by blast
    from that obtain l where "map_of (containerAdjusters (clone w)) (''.'' @ T) = Some l" by auto
    from gather_containerAdjusters_keep[OF g this] u show False by simp
  qed
  have reg: "map_of (containerAdjusters (build b')) (''.'' @ T) \<noteq> None"
    if "adjustContainer w T f = Inr b' \<or> adjustWiringAfter w T f = Inr b'" for f b'
    using that
  proof
    assume "adjustContainer w T f = Inr b'"
    then have "b' = priv_adjustContainer w T f"
      by (auto simp: adjustContainer_def split: if_splits)
    then show ?thesis
      by (simp add: build_def priv_adjustContainer_def map_of_addAdjuster)
  next
    assume a: "adjustWiringAfter w T f = Inr b'"
    then have v: "T \<noteq> ''''" by (auto simp: adjustWiringAfter_def isValidContainerType_def split: if_splits)
    from a have "b' = priv_adjustWiringAfter w T f"
      by (auto simp: adjustWiringAfter_def split: if_splits)
    then show ?thesis using v
      by (auto simp: build_def priv_adjustWiringAfter_def map_of_addAdjuster
          map_of_ensureContainerTypeExists is_ancestor_def)
  qed
  have supplied: "\<not> ?unknown"
    if "gatherWiringSuppliedByWiringAdjusters fuel env (clone w) '''' NoContext
          = Some (Inr (w1, base))"
      "WiringAdjusterCall a NoContext \<in> set base"
      "AddWiring x \<in> set (wiringAdjusterCalls env a NoContext)"
      "map_of (containerAdjusters x) (''.'' @ T) \<noteq> None" for w1 base a x
    using gather_called_types[OF that] that(1) by auto
  show ?thesis
  proof (intro conjI allI impI)
    show "createContainer fuel env w T args = Some (Inl RangeError) \<longleftrightarrow>
      isValidContainerType T \<and> ?unknown" by (rule cc)
    show "createContainerFactory fuel env w T args = Some (Inl RangeError) \<longleftrightarrow>
      isValidContainerType T \<and> ?unknown" by (rule cf)
  next
    assume k: "map_of (containerAdjusters w) (''.'' @ T) \<noteq> None"
    show "createContainer fuel env w T args \<noteq> Some (Inl RangeError)"
      using cc known[OF k] by blast
    show "createContainerFactory fuel env w T args \<noteq> Some (Inl RangeError)"
      using cf known[OF k] by blast
  next
    fix f b' assume "adjustContainer w T f = Inr b' \<or> adjustWiringAfter w T f = Inr b'"
    then show "map_of (containerAdjusters (build b')) (''.'' @ T) \<noteq> None" by (rule reg)
  next
    fix w1 base a x
    assume h: "gatherWiringSuppliedByWiringAdjusters fuel env (clone w) '''' NoContext
          = Some (Inr (w1, base))"
      "WiringAdjusterCall a NoContext \<in> set base"
      "AddWiring x \<in> set (wiringAdjusterCalls env a NoContext)"
      "map_of (containerAdjusters x) (''.'' @ T) \<noteq> None"
    show "createContainer fuel env w T args \<noteq> Some (Inl RangeError)"
      using cc supplied[OF h] by blast
    show "createContainerFactory fuel env w T args \<noteq> Some (Inl RangeError)"
      using cf supplied[OF h] by blast
  qed
qed

lemma base_only_runs:
  "gatherWiringSuppliedByWiringAdjusters 2 supplying_env (clone base_only_wiring) '''' NoContext
     = Some (Inr (Wiring 0 [('''', [10]), (''.Test'', [10])] [('''', []), (''Test'', [])]
                    [(10, Some (Wiring 0 [(''.Test'', [2]), ('''', [])] [] []))],
                  [WiringAdjusterCall 10 NoContext]))"
  "AddWiring test_wiring \<in> set (wiringAdjusterCalls supplying_env 10 NoContext)"
  "map_of (containerAdjusters test_wiring) (''.'' @ ''Test'') \<noteq> None"
  "applied_order (createContainer 2 supplying_env base_only_wiring ''Test'' []) = Some (Inr [2])"
  "createContainer 2 supplying_env base_only_wiring ''Other'' [] = Some (Inl RangeError)"
  "isValidContainerType ''Other''"
  by code_simp+

theorem not_found_iff_unknown_after_base_expansion_witness:
  "gatherWiringSuppliedByWiringAdjusters 2 supplying_env (clone base_only_wiring) '''' NoContext
     = Some (Inr (Wiring 0 [('''', [10]), (''.Test'', [10])] [('''', []), (''Test'', [])]
                    [(10, Some (Wiring 0 [(''.Test'', [2]), ('''', [])] [] []))],
                  [WiringAdjusterCall 10 NoContext]))
   \<and> AddWiring test_wiring \<in> set (wiringAdjusterCalls supplying_env 10 NoContext)
   \<and> map_of (containerAdjusters test_wiring) (''.'' @ ''Test'') \<noteq> None
   \<and> createContainer 2 supplying_env base_only_wiring ''Test'' [] \<noteq> Some (Inl RangeError)
   \<and> applied_order (createContainer 2 supplying_env base_only_wiring ''Test'' []) = Some (Inr [2])
   \<and> createContainer 2 supplying_env base_only_wiring ''Other'' [] = Some (Inl RangeError)
   \<and> isValidContainerType ''Other''
   \<and> (\<exists>w1 base. gatherWiringSuppliedByWiringAdjusters 2 supplying_env (clone base_only_wiring)
            '''' NoContext = Some (Inr (w1, base))
         \<and> map_of (containerAdjusters w1) (''.'' @ ''Other'') = None)"
proof -
  note t = not_found_iff_unknown_after_base_expansion[of 2 supplying_env base_only_wiring]
  note sup = t[of "''Test''" "[]", THEN conjunct2, THEN conjunct2, THEN conjunct2, THEN conjunct2,
      rule_format, OF base_only_runs(1) _ base_only_runs(2,3)]
  have 1: "createContainer 2 supplying_env base_only_wiring ''Test'' [] \<noteq> Some (Inl RangeError)"
    using sup by simp
  note iff = t[of "''Other''" "[]", THEN conjunct1]
  have 2: "\<exists>w1 base. gatherWiringSuppliedByWiringAdjusters 2 supplying_env (clone base_only_wiring)
            '''' NoContext = Some (Inr (w1, base))
         \<and> map_of (containerAdjusters w1) (''.'' @ ''Other'') = None"
    using iff base_only_runs(5) by simp
  show ?thesis using base_only_runs 1 2 by simp
qed

subsection \<open>Container factories\<close>

text \<open>
  Claim C8, as stated, has every call of a factory clone the wiring on which
  \<^verbatim>\<open>createContainerFactory\<close> was called and perform the whole creation on the clone. The
  function returned by \<^verbatim>\<open>_createContainerFactory\<close> clones the private wiring in which the base
  wiring adjusters have already been called: for the wiring whose only registration is
  the base wiring adjuster 10, a creation from the wiring itself calls adjuster 10, a call
  of the factory does not.
\<close>

theorem factory_call_skips_base_wiring_adjusters:
  "createContainerFactory 2 supplying_env base_only_wiring ''Test'' [5]
     = Some (Inr (\<lparr>fwiring = base_expanded_wiring, ftype = ''Test'', factoryArgs = [5]\<rparr>,
                  [WiringAdjusterCall 10 NoContext]))
   \<and> callFactory 2 supplying_env
       \<lparr>fwiring = base_expanded_wiring, ftype = ''Test'', factoryArgs = [5]\<rparr> [6]
     = Some (Inr (\<lparr>ctype = ''Test'', wiringBean = base_expanded_wiring, applied = [(2, [5, 6])]\<rparr>,
                  [RegisterWiringBean, ContainerAdjusterCall 2 [5, 6]]))
   \<and> spec_factory_call 2 supplying_env base_only_wiring ''Test'' [5] [6]
     = Some (Inr (\<lparr>ctype = ''Test'', wiringBean = base_expanded_wiring, applied = [(2, [5, 6])]\<rparr>,
                  [WiringAdjusterCall 10 NoContext, RegisterWiringBean,
                   ContainerAdjusterCall 2 [5, 6]]))
   \<and> callFactory 2 supplying_env
       \<lparr>fwiring = base_expanded_wiring, ftype = ''Test'', factoryArgs = [5]\<rparr> [6]
     \<noteq> spec_factory_call 2 supplying_env base_only_wiring ''Test'' [5] [6]"
  by code_simp

text \<open>
  Claim C8, amended. \<^verbatim>\<open>createContainerFactory\<close> expands the base wiring adjusters and checks
  the type at once: it fails with the unknown-type error exactly when the type is valid
  and unknown to the wiring after the base expansion, and then no factory is returned; no
  call of a factory it does return fails with that error. Every call of the factory
  clones the factory's wiring, which is the wiring after the base expansion, and performs
  the creation on the clone with the factory's arguments followed by the caller's. The
  base wiring adjusters are not called again; apart from their calls, the call ends,
  fails or returns as \<^verbatim>\<open>createContainer\<close> does on the original wiring with the same
  arguments, with the same container, wiring bean and calls. In particular every call of
  the factory expands the after-creation wiring adjusters of the factory's wiring.
\<close>

theorem factory_call_is_creation_after_base_expansion:
  "(createContainerFactory fuel env w T fArgs = Some (Inl RangeError) \<longleftrightarrow>
      isValidContainerType T
      \<and> (\<exists>this1 base.
            gatherWiringSuppliedByWiringAdjusters fuel env (clone w) '''' NoContext
              = Some (Inr (this1, base))
          \<and> map_of (containerAdjusters this1) (''.'' @ T) = None))
   \<and> (\<forall>f calls0. createContainerFactory fuel env w T fArgs = Some (Inr (f, calls0)) \<longrightarrow>
        gatherWiringSuppliedByWiringAdjusters fuel env (clone w) '''' NoContext
          = Some (Inr (fwiring f, calls0))
        \<and> map_of (containerAdjusters (fwiring f)) (''.'' @ T) \<noteq> None
        \<and> ftype f = T \<and> factoryArgs f = fArgs
        \<and> (\<forall>fuel' callerArgs. callFactory fuel' env f callerArgs \<noteq> Some (Inl RangeError))
        \<and> (\<forall>callerArgs.
              callFactory fuel env f callerArgs
                = priv_createContainer fuel env (clone (fwiring f)) T (fArgs @ callerArgs)
            \<and> (callFactory fuel env f callerArgs = None
                 \<longleftrightarrow> createContainer fuel env w T (fArgs @ callerArgs) = None)
            \<and> (\<forall>e. callFactory fuel env f callerArgs = Some (Inl e)
                 \<longleftrightarrow> createContainer fuel env w T (fArgs @ callerArgs) = Some (Inl e))
            \<and> (\<forall>c calls. callFactory fuel env f callerArgs = Some (Inr (c, calls))
                 \<longleftrightarrow> createContainer fuel env w T (fArgs @ callerArgs)
                       = Some (Inr (c, calls0 @ calls)))
            \<and> (\<forall>c calls. callFactory fuel env f callerArgs = Some (Inr (c, calls)) \<longrightarrow>
                  snd ` set (applied c) \<subseteq> {fArgs @ callerArgs}
                  \<and> (\<exists>after.
                        gatherWiringSuppliedByWiringAdjusters fuel env (fwiring f) T
                            (Created T (applied c))
                          = Some (Inr (wiringBean c, after))
                      \<and> calls = RegisterWiringBean
                          # map (\<lambda>(a, args). ContainerAdjusterCall a args) (applied c) @ after))))"
proof (intro conjI allI impI)
  show "createContainerFactory fuel env w T fArgs = Some (Inl RangeError) \<longleftrightarrow>
      isValidContainerType T
      \<and> (\<exists>this1 base.
            gatherWiringSuppliedByWiringAdjusters fuel env (clone w) '''' NoContext
              = Some (Inr (this1, base))
          \<and> map_of (containerAdjusters this1) (''.'' @ T) = None)"
    by (simp add: createContainerFactory_def priv_createContainerFactory_RangeError)
next
  fix f calls0
  assume cf: "createContainerFactory fuel env w T fArgs = Some (Inr (f, calls0))"
  then have valid: "isValidContainerType T"
    and pf: "priv_createContainerFactory fuel env (clone w) T fArgs = Some (Inr (f, calls0))"
    by (simp_all add: createContainerFactory_def split: if_splits)
  from pf have g: "gatherWiringSuppliedByWiringAdjusters fuel env (clone w) '''' NoContext
          = Some (Inr (fwiring f, calls0))"
    and known: "map_of (containerAdjusters (fwiring f)) (''.'' @ T) \<noteq> None"
    and ft: "ftype f = T" and fa: "factoryArgs f = fArgs"
    by (rule priv_createContainerFactory_Inr)+
  show "gatherWiringSuppliedByWiringAdjusters fuel env (clone w) '''' NoContext
          = Some (Inr (fwiring f, calls0))" by (rule g)
  show "map_of (containerAdjusters (fwiring f)) (''.'' @ T) \<noteq> None" by (rule known)
  show "ftype f = T" by (rule ft)
  show "factoryArgs f = fArgs" by (rule fa)
  have empty: "stored (wiringAdjusters (fwiring f)) '''' = []"
    using g by (rule gather_final_empty)
  show "callFactory fuel' env f callerArgs \<noteq> Some (Inl RangeError)" for fuel' callerArgs
    using callFactory_not_RangeError[of f fuel' env callerArgs] known empty ft by simp
  fix callerArgs
  let ?args = "fArgs @ callerArgs"
  have call: "callFactory fuel env f callerArgs = priv_createContainer fuel env (fwiring f) T ?args"
    by (simp add: callFactory_def ft fa)
  have create: "createContainer fuel env w T ?args
     = (case priv_createContainer fuel env (fwiring f) T ?args of
          None \<Rightarrow> None
        | Some (Inl e) \<Rightarrow> Some (Inl e)
        | Some (Inr (c, calls)) \<Rightarrow> Some (Inr (c, calls0 @ calls)))"
    using valid priv_createContainer_after_base[OF g, of T ?args]
    by (simp add: createContainer_def)
  show "callFactory fuel env f callerArgs
          = priv_createContainer fuel env (clone (fwiring f)) T (fArgs @ callerArgs)"
    using call by simp
  show "callFactory fuel env f callerArgs = None
          \<longleftrightarrow> createContainer fuel env w T (fArgs @ callerArgs) = None"
    unfolding call create by (simp split: option.splits sum.splits prod.splits)
  show "callFactory fuel env f callerArgs = Some (Inl e)
          \<longleftrightarrow> createContainer fuel env w T (fArgs @ callerArgs) = Some (Inl e)" for e
    unfolding call create by (simp split: option.splits sum.splits prod.splits)
  show "callFactory fuel env f callerArgs = Some (Inr (c, calls))
          \<longleftrightarrow> createContainer fuel env w T (fArgs @ callerArgs) = Some (Inr (c, calls0 @ calls))"
    for c calls
    unfolding call create by (simp split: option.splits sum.splits prod.splits)
  fix c calls
  assume r: "callFactory fuel env f callerArgs = Some (Inr (c, calls))"
  then have p: "priv_createContainer fuel env (fwiring f) T ?args = Some (Inr (c, calls))"
    using call by simp
  show "snd ` set (applied c) \<subseteq> {fArgs @ callerArgs}"
    using priv_createContainer_applied[OF p] by blast
  from p show "\<exists>after.
      gatherWiringSuppliedByWiringAdjusters fuel env (fwiring f) T (Created T (applied c))
        = Some (Inr (wiringBean c, after))
      \<and> calls = RegisterWiringBean
          # map (\<lambda>(a, args). ContainerAdjusterCall a args) (applied c) @ after"
  proof (cases rule: priv_createContainer_InrE)
    case (1 this1 base flattened after)
    from gather_again[OF g, of NoContext] 1(1) have "this1 = fwiring f" "base = []"
      by simp_all
    with 1(5,7) show ?thesis by simp
  qed
qed


lemma factory_made:
  "createContainerFactory 3 supplying_env factory_wiring ''Test'' [5]
     = Some (Inr (\<lparr>fwiring = factory_expanded_wiring, ftype = ''Test'', factoryArgs = [5]\<rparr>,
                  [WiringAdjusterCall 10 NoContext]))"
  by code_simp

lemma factory_called:
  "callFactory 3 supplying_env
       \<lparr>fwiring = factory_expanded_wiring, ftype = ''Test'', factoryArgs = [5]\<rparr> [6]
     = Some (Inr (\<lparr>ctype = ''Test'', wiringBean = factory_bean, applied = [(2, [5, 6])]\<rparr>,
                  [RegisterWiringBean, ContainerAdjusterCall 2 [5, 6],
                   WiringAdjusterCall 12 (Created ''Test'' [(2, [5, 6])])]))"
  "callFactory 3 supplying_env
       \<lparr>fwiring = factory_expanded_wiring, ftype = ''Test'', factoryArgs = [5]\<rparr> [7]
     = Some (Inr (\<lparr>ctype = ''Test'', wiringBean = factory_bean, applied = [(2, [5, 7])]\<rparr>,
                  [RegisterWiringBean, ContainerAdjusterCall 2 [5, 7],
                   WiringAdjusterCall 12 (Created ''Test'' [(2, [5, 7])])]))"
  by code_simp+

lemma factory_unknown:
  "createContainerFactory 3 supplying_env factory_wiring ''Other'' [5] = Some (Inl RangeError)"
  by code_simp

theorem factory_call_is_creation_after_base_expansion_witness:
  "run_ops [AdjustBaseWiring 10, AdjustWiringAfter ''Test'' 12] (WiringBuilder_new None)
     = Inr factory_wiring
   \<and> createContainerFactory 3 supplying_env factory_wiring ''Other'' [5] = Some (Inl RangeError)
   \<and> isValidContainerType ''Other''
   \<and> createContainerFactory 3 supplying_env factory_wiring ''Test'' [5]
     = Some (Inr (\<lparr>fwiring = factory_expanded_wiring, ftype = ''Test'', factoryArgs = [5]\<rparr>,
                  [WiringAdjusterCall 10 NoContext]))
   \<and> callFactory 3 supplying_env
       \<lparr>fwiring = factory_expanded_wiring, ftype = ''Test'', factoryArgs = [5]\<rparr> [6]
     = Some (Inr (\<lparr>ctype = ''Test'', wiringBean = factory_bean, applied = [(2, [5, 6])]\<rparr>,
                  [RegisterWiringBean, ContainerAdjusterCall 2 [5, 6],
                   WiringAdjusterCall 12 (Created ''Test'' [(2, [5, 6])])]))
   \<and> createContainer 3 supplying_env factory_wiring ''Test'' [5, 6]
     = Some (Inr (\<lparr>ctype = ''Test'', wiringBean = factory_bean, applied = [(2, [5, 6])]\<rparr>,
                  [WiringAdjusterCall 10 NoContext, RegisterWiringBean,
                   ContainerAdjusterCall 2 [5, 6],
                   WiringAdjusterCall 12 (Created ''Test'' [(2, [5, 6])])]))
   \<and> callFactory 3 supplying_env
       \<lparr>fwiring = factory_expanded_wiring, ftype = ''Test'', factoryArgs = [5]\<rparr> [7]
     = Some (Inr (\<lparr>ctype = ''Test'', wiringBean = factory_bean, applied = [(2, [5, 7])]\<rparr>,
                  [RegisterWiringBean, ContainerAdjusterCall 2 [5, 7],
                   WiringAdjusterCall 12 (Created ''Test'' [(2, [5, 7])])]))
   \<and> createContainer 3 supplying_env factory_wiring ''Test'' [5, 7]
     = Some (Inr (\<lparr>ctype = ''Test'', wiringBean = factory_bean, applied = [(2, [5, 7])]\<rparr>,
                  [WiringAdjusterCall 10 NoContext, RegisterWiringBean,
                   ContainerAdjusterCall 2 [5, 7],
                   WiringAdjusterCall 12 (Created ''Test'' [(2, [5, 7])])]))"
proof -
  have built: "run_ops [AdjustBaseWiring 10, AdjustWiringAfter ''Test'' 12] (WiringBuilder_new None)
     = Inr factory_wiring"
    by code_simp
  note t = factory_call_is_creation_after_base_expansion[of 3 supplying_env factory_wiring _ "[5]"]
  from t[of "''Other''", THEN conjunct1] factory_unknown
  have known: "isValidContainerType ''Other''" by (rule iffD1[THEN conjunct1])
  note tf = t[of "''Test''", THEN conjunct2, rule_format, OF factory_made]
  note tc = tf[THEN conjunct2, THEN conjunct2, THEN conjunct2, THEN conjunct2, THEN conjunct2,
      rule_format]
  note iff = tc[THEN conjunct2, THEN conjunct2, THEN conjunct2, THEN conjunct1, rule_format]
  have c6: "createContainer 3 supplying_env factory_wiring ''Test'' [5, 6]
     = Some (Inr (\<lparr>ctype = ''Test'', wiringBean = factory_bean, applied = [(2, [5, 6])]\<rparr>,
                  [WiringAdjusterCall 10 NoContext, RegisterWiringBean,
                   ContainerAdjusterCall 2 [5, 6],
                   WiringAdjusterCall 12 (Created ''Test'' [(2, [5, 6])])]))"
    using iff[THEN iffD1, OF factory_called(1)] by simp
  have c7: "createContainer 3 supplying_env factory_wiring ''Test'' [5, 7]
     = Some (Inr (\<lparr>ctype = ''Test'', wiringBean = factory_bean, applied = [(2, [5, 7])]\<rparr>,
                  [WiringAdjusterCall 10 NoContext, RegisterWiringBean,
                   ContainerAdjusterCall 2 [5, 7],
                   WiringAdjusterCall 12 (Created ''Test'' [(2, [5, 7])])]))"
    using iff[THEN iffD1, OF factory_called(2)] by simp
  show ?thesis
    using built factory_unknown known factory_made factory_called(1) c6 factory_called(2) c7
    by (intro conjI)
qed

subsection \<open>Wiring adjusters after a creation\<close>


lemma after_wiring_facts:
  "run_ops [AdjustWiringAfter ''A'' 12, AdjustContainer ''A.B'' 1] (WiringBuilder_new None)
     = Inr after_wiring"
  "run_ops [AdjustContainer ''A.B'' 2] (WiringBuilder_new None) = Inr supplied_wiring"
  "createContainer 3 after_env after_wiring ''A.B'' [5]
     = Some (Inr (\<lparr>ctype = ''A.B'', wiringBean = after_bean, applied = [(1, [5])]\<rparr>,
                  [RegisterWiringBean, ContainerAdjusterCall 1 [5],
                   WiringAdjusterCall 12 (Created ''A.B'' [(1, [5])])]))"
  "createContainer 3 after_env after_bean ''A.B'' [6]
     = Some (Inr (\<lparr>ctype = ''A.B'', wiringBean = after_bean, applied = [(2, [6]), (1, [6])]\<rparr>,
                  [RegisterWiringBean, ContainerAdjusterCall 2 [6], ContainerAdjusterCall 1 [6]]))"
  "12 \<in> set (stored (wiringAdjusters after_wiring) ''A'')"
  "is_ancestor ''A'' ''A.B''"
  by code_simp+


end
